theory Spec2Isabelle
  imports Main "HOL-Library.Word"
begin

section \<open>Errors\<close>

text \<open>
  Go errors are values.  The sentinels the modelled code compares against or returns are
  constructors; \<open>errors.Wrap err msg\<close> keeps the wrapped error, and \<open>Cause\<close> unwraps it as
  \<open>errors.Cause\<close> does.  A Go run-time panic (index out of range, nil dereference) is a
  separate type, returned on the left of a sum.
\<close>

datatype error =
    ErrBadAssert
  | ErrAssertMsg
  | ErrClosed
  | ErrBufferFull
  | EOF
  | ErrNoProgress
  | IOError nat
  | Wrap error string

fun Cause :: "error \<Rightarrow> error" where
  "Cause (Wrap e msg) = Cause e"
| "Cause e = e"

datatype panic = IndexOutOfRange | NilDereference

section \<open>lib/bufio: the vectored writer\<close>

text \<open>
  \<open>Writer\<close> of \<open>lib/bufio/io.go\<close>: the queued slices \<open>bufs\<close>, the sticky error \<open>err\<close>, and
  the underlying \<open>io.Writer\<close>, here a state \<open>wr\<close> of any type.  \<open>net.Buffers.WriteTo\<close> is the
  environment: the parameter \<open>wt\<close> maps the queued slices and the sink to the error it
  returns (if any) and the new sink.
\<close>

record 'w Writer =
  wr :: 'w
  bufs :: "string list"
  err :: "error option"

type_synonym 'w WriteTo = "string list \<Rightarrow> 'w \<Rightarrow> error option \<times> 'w"

definition NewWriter :: "'w \<Rightarrow> 'w Writer" where
  "NewWriter s = \<lparr>wr = s, bufs = [], err = None\<rparr>"

definition Flush :: "'w WriteTo \<Rightarrow> 'w Writer \<Rightarrow> error option \<times> 'w Writer" where
  "Flush wt w =
     (case err w of
        Some e \<Rightarrow> (Some e, w)
      | None \<Rightarrow>
          if length (bufs w) = 0 then (None, w)
          else (case wt (bufs w) (wr w) of
                  (e, s) \<Rightarrow>
                    let w1 = (case e of Some x \<Rightarrow> w\<lparr>wr := s, err := Some x\<rparr>
                                      | None \<Rightarrow> w\<lparr>wr := s\<rparr>);
                        w2 = w1\<lparr>bufs := []\<rparr>
                    in (err w2, w2)))"

text \<open>
  \<open>Write\<close> takes a slice that may be nil (\<open>None\<close>).  The result of the inner \<open>Flush\<close> at
  ten queued slices is dropped, as in the source.
\<close>

definition Write :: "'w WriteTo \<Rightarrow> 'w Writer \<Rightarrow> string option \<Rightarrow> error option \<times> 'w Writer" where
  "Write wt w p =
     (case err w of
        Some e \<Rightarrow> (Some e, w)
      | None \<Rightarrow>
          (case p of
             None \<Rightarrow> (None, w)
           | Some bs \<Rightarrow>
               let w1 = (if length (bufs w) = 10 then snd (Flush wt w) else w)
               in (None, w1\<lparr>bufs := bufs w1 @ [bs]\<rparr>)))"

definition WriteString :: "'w WriteTo \<Rightarrow> 'w Writer \<Rightarrow> string \<Rightarrow> error option \<times> 'w Writer" where
  "WriteString wt w s = Write wt w (Some s)"

text \<open>A caller's calls on one writer, and the errors they return in order.\<close>

datatype wcall = CallWrite "string option" | CallFlush

fun wcall_run :: "'w WriteTo \<Rightarrow> 'w Writer \<Rightarrow> wcall \<Rightarrow> error option \<times> 'w Writer" where
  "wcall_run wt w (CallWrite p) = Write wt w p"
| "wcall_run wt w CallFlush = Flush wt w"

fun wcalls_run :: "'w WriteTo \<Rightarrow> 'w Writer \<Rightarrow> wcall list \<Rightarrow> error option list" where
  "wcalls_run wt w [] = []"
| "wcalls_run wt w (c # cs) =
     (case wcall_run wt w c of (e, w') \<Rightarrow> e # wcalls_run wt w' cs)"

section \<open>proto: MsgBatch\<close>

text \<open>
  \<open>MsgBatch\<close>: the slice \<open>msgs\<close> of message pointers (\<open>None\<close> is nil) and \<open>count\<close>, an
  \<open>int\<close> that the source only sets to 0 and increments, kept as a natural number; \<open>Count\<close>
  and \<open>Nth\<close> return and take a Go \<open>int\<close>.  The reply buffer is kept by its valid bytes and read position; the wait
  group belongs to the scheduler and is left out.

  Modelled from the spec: \<open>bufio.Buffer\<close> is declared outside src/; its \<open>Reset\<close> rewinds the
  buffer to empty.
\<close>

record Buffer =
  bytes :: string
  rpos :: nat

definition Buffer_Reset :: "Buffer \<Rightarrow> Buffer" where
  "Buffer_Reset b = b\<lparr>bytes := [], rpos := 0\<rparr>"

record 'm MsgBatch =
  buf :: Buffer
  msgs :: "'m option list"
  count :: nat

definition AddMsg :: "'m MsgBatch \<Rightarrow> 'm option \<Rightarrow> 'm MsgBatch" where
  "AddMsg m msg =
     (let m1 = (if length (msgs m) \<le> count m
                then m\<lparr>msgs := msgs m @ [msg]\<rparr>
                else m\<lparr>msgs := (msgs m)[count m := msg]\<rparr>)
      in m1\<lparr>count := count m1 + 1\<rparr>)"

definition Count :: "'m MsgBatch \<Rightarrow> int" where
  "Count m = int (count m)"

text \<open>Indexing a slice outside \<open>0 \<le> i < len\<close> panics.\<close>

definition Nth :: "'m MsgBatch \<Rightarrow> int \<Rightarrow> panic + 'm option" where
  "Nth m i =
     (if i < int (count m) then
        (if 0 \<le> i \<and> i < int (length (msgs m)) then Inr (msgs m ! nat i)
         else Inl IndexOutOfRange)
      else Inr None)"

definition Reset :: "'m MsgBatch \<Rightarrow> 'm MsgBatch" where
  "Reset m = m\<lparr>count := 0, buf := Buffer_Reset (buf m)\<rparr>"

text \<open>
  \<open>msgs[:count]\<close> panics when \<open>count\<close> exceeds the capacity.  Capacities are not modelled:
  the slice is taken up to the length, which \<open>count\<close> does not exceed in any batch that
  \<open>AddMsg\<close> and \<open>Reset\<close> produce.
\<close>

definition Msgs :: "'m MsgBatch \<Rightarrow> panic + 'm option list" where
  "Msgs m =
     (if count m \<le> length (msgs m) then Inr (take (count m) (msgs m))
      else Inl IndexOutOfRange)"

text \<open>A batch as the pool's \<open>New\<close> makes it: \<open>defaultMsgBatchSize\<close> nil slots, an empty buffer.\<close>

definition defaultMsgBatchSize :: nat where
  "defaultMsgBatchSize = 2"

definition NewMsgBatch :: "'m MsgBatch" where
  "NewMsgBatch = \<lparr>buf = \<lparr>bytes = [], rpos = 0\<rparr>, msgs = replicate defaultMsgBatchSize None, count = 0\<rparr>"

section \<open>proxy: the handler's slot count\<close>

definition defaultConcurrent :: int where
  "defaultConcurrent = 2"

definition maxConcurrent :: int where
  "maxConcurrent = 1024"

text \<open>
  \<open>resetMaxConcurrent\<close> on the length \<open>lm\<close> of the message slice: \<open>GetMsgs n\<close> returns a
  slice of length \<open>n\<close>, so the function is modelled on lengths.
\<close>

definition resetMaxConcurrent :: "int \<Rightarrow> int \<Rightarrow> int" where
  "resetMaxConcurrent lm lastCount =
     (if lm < maxConcurrent \<and> lm = lastCount then lm * 2 else lm)"

text \<open>
  The slot count of \<open>handle\<close> after the frames whose decoded lengths are \<open>cs\<close>: it starts at
  \<open>defaultConcurrent\<close> and each iteration ends with
  \<open>messages = resetMaxConcurrent(messages, len(msgs))\<close>.
\<close>

definition slots :: "int list \<Rightarrow> int" where
  "slots cs = foldl resetMaxConcurrent defaultConcurrent cs"

section \<open>proto/redis: resp objects and the merge of sub-responses\<close>

text \<open>
  A \<open>resp\<close> is a type byte, a byte slice and a slice of pointers to \<open>resp\<close>; a nil slice and
  a nil pointer are \<open>None\<close>.
\<close>

datatype resp = RespObj (rtype: char) (data: "string option") (array: "resp option list option")

definition respString :: char where "respString = CHR ''+''"
definition respError :: char where "respError = CHR ''-''"
definition respInt :: char where "respInt = CHR '':''"
definition respBulk :: char where "respBulk = CHR ''$''"
definition respArray :: char where "respArray = CHR ''*''"

text \<open>\<open>strconv.Itoa\<close>: the decimal digits, with a leading minus sign below zero.\<close>

fun utoa :: "nat \<Rightarrow> string" where
  "utoa n = (if n < 10 then [''0123456789'' ! n] else utoa (n div 10) @ [''0123456789'' ! (n mod 10)])"

definition Itoa :: "int \<Rightarrow> string" where
  "Itoa i = (if i < 0 then CHR ''-'' # utoa (nat (- i)) else utoa (nat i))"

definition newRespString :: "string \<Rightarrow> resp" where
  "newRespString val = RespObj respString (Some val) None"

definition newRespArrayWithCapcity :: "nat \<Rightarrow> resp" where
  "newRespArrayWithCapcity n = RespObj respArray None (Some (replicate n None))"

definition newRespInt :: "int \<Rightarrow> resp" where
  "newRespInt val = RespObj respArray (Some (Itoa val)) None"

definition isNull :: "resp \<Rightarrow> bool" where
  "isNull r =
     (if rtype r = respArray then array r = None
      else if rtype r = respBulk then data r = None
      else False)"

text \<open>\<open>r.array[pos] = newer\<close>: an index at or beyond the length (0 for a nil slice) panics.\<close>

definition replace :: "resp \<Rightarrow> nat \<Rightarrow> resp option \<Rightarrow> panic + resp" where
  "replace r pos newer =
     (case array r of
        None \<Rightarrow> Inl IndexOutOfRange
      | Some a \<Rightarrow>
          if pos < length a then Inr (RespObj (rtype r) (data r) (Some (a[pos := newer])))
          else Inl IndexOutOfRange)"

datatype MergeType = MergeTypeBasic | MergeTypeJoin | MergeTypeCount | MergeTypeOk

record RResponse =
  respObj :: "resp option"
  mergeType :: MergeType

definition newRResponse :: "MergeType \<Rightarrow> RResponse" where
  "newRResponse mtype = \<lparr>respObj = None, mergeType = mtype\<rparr>"

text \<open>
  \<open>proto.Response\<close> and \<open>proto.Request\<close> are declared outside src/; the merge reads a
  sub-request's \<open>Resp\<close>, and of that response the protocol value \<open>Proto()\<close> (an interface)
  and the error \<open>Err()\<close>.  The interface value holds a redis \<open>*RResponse\<close>, a value of
  another dialect, or nothing; \<open>assertRResponse\<close> is the type assertion \<open>.(*RResponse)\<close>,
  \<open>None\<close> when it fails.
\<close>

datatype protoResponse = NoProto | RedisProto RResponse | ForeignProto

record Response =
  rProto :: protoResponse
  rErr :: "error option"

record proto_Request =
  Resp :: Response

definition assertRResponse :: "protoResponse \<Rightarrow> RResponse option" where
  "assertRResponse p = (case p of RedisProto srr \<Rightarrow> Some srr | _ \<Rightarrow> None)"

text \<open>The loop of \<open>mergeJoin\<close> over \<open>subs\<close> from index \<open>idx\<close>, on the parent's resp object.\<close>

fun mergeJoin_loop :: "resp \<Rightarrow> nat \<Rightarrow> proto_Request list \<Rightarrow> panic + resp" where
  "mergeJoin_loop obj idx [] = Inr obj"
| "mergeJoin_loop obj idx (sub # subs) =
     (case assertRResponse (rProto (Resp sub)) of
        None \<Rightarrow> mergeJoin_loop obj (idx + 1) subs
      | Some srr \<Rightarrow>
          (case replace obj idx (respObj srr) of
             Inl p \<Rightarrow> Inl p
           | Inr obj' \<Rightarrow> mergeJoin_loop obj' (idx + 1) subs))"

definition mergeJoin :: "RResponse \<Rightarrow> proto_Request list \<Rightarrow> panic + RResponse" where
  "mergeJoin rr subs =
     (let obj1 = (case respObj rr of
                    None \<Rightarrow> newRespArrayWithCapcity (length subs)
                  | Some obj \<Rightarrow> obj);
          obj2 = (if isNull obj1
                  then RespObj (rtype obj1) (data obj1) (Some (replicate (length subs) None))
                  else obj1)
      in case mergeJoin_loop obj2 0 subs of
           Inl p \<Rightarrow> Inl p
         | Inr obj3 \<Rightarrow> Inr (rr\<lparr>respObj := Some obj3\<rparr>))"

fun mergeCount_loop :: "int \<Rightarrow> proto_Request list \<Rightarrow> int" where
  "mergeCount_loop cnt [] = cnt"
| "mergeCount_loop cnt (sub # subs) =
     (case rErr (Resp sub) of
        Some e \<Rightarrow> mergeCount_loop cnt subs
      | None \<Rightarrow> mergeCount_loop (cnt + 1) subs)"

definition mergeCount :: "RResponse \<Rightarrow> proto_Request list \<Rightarrow> RResponse" where
  "mergeCount rr subs = rr\<lparr>respObj := Some (newRespInt (mergeCount_loop 0 subs))\<rparr>"

fun mergeOk :: "RResponse \<Rightarrow> proto_Request list \<Rightarrow> RResponse" where
  "mergeOk rr [] = rr\<lparr>respObj := Some (newRespString ''OK'')\<rparr>"
| "mergeOk rr (sub # subs) =
     (case rErr (Resp sub) of
        None \<Rightarrow> mergeOk rr subs
      | Some e \<Rightarrow>
          (case assertRResponse (rProto (Resp sub)) of
             None \<Rightarrow> mergeOk rr subs
           | Some ssr \<Rightarrow> rr\<lparr>respObj := respObj ssr\<rparr>))"

text \<open>
  \<open>Merge\<close>.  In the basic case \<open>subs[0]\<close> panics on an empty slice; when the assertion
  succeeds the source returns at once, and when it fails \<open>srr\<close> is nil and \<open>srr.respObj\<close>
  is a nil dereference.
\<close>

definition Merge :: "RResponse \<Rightarrow> proto_Request list \<Rightarrow> panic + RResponse" where
  "Merge rr subs =
     (case mergeType rr of
        MergeTypeBasic \<Rightarrow>
          (case subs of
             [] \<Rightarrow> Inl IndexOutOfRange
           | sub0 # rest \<Rightarrow>
               (case assertRResponse (rProto (Resp sub0)) of
                  Some srr \<Rightarrow> Inr rr
                | None \<Rightarrow> Inl NilDereference))
      | MergeTypeJoin \<Rightarrow> mergeJoin rr subs
      | MergeTypeCount \<Rightarrow> Inr (mergeCount rr subs)
      | MergeTypeOk \<Rightarrow> Inr (mergeOk rr subs))"

text \<open>
  The reply a sub-request contributes to a joined array: the resp object of its response
  when that response is a redis \<open>RResponse\<close>, and nil when the type assertion fails.
\<close>

definition subReply :: "proto_Request \<Rightarrow> resp option" where
  "subReply sub =
     (case assertRResponse (rProto (Resp sub)) of
        Some srr \<Rightarrow> respObj srr
      | None \<Rightarrow> None)"

text \<open>A sub-request whose backend answered with the given resp object, without error.\<close>

definition answered :: "resp \<Rightarrow> proto_Request" where
  "answered obj =
     \<lparr>Resp = \<lparr>rProto = RedisProto \<lparr>respObj = Some obj, mergeType = MergeTypeBasic\<rparr>, rErr = None\<rparr>\<rparr>"

section \<open>proto: messages\<close>

text \<open>
  Modelled from the spec: \<open>proto.Message\<close> is declared outside src/.  A message carries
  its request, an interface value that holds a request of the connection's own dialect
  or of another one; the marks that \<open>MarkWrite\<close> and \<open>MarkRead\<close> set (time stamps in the
  source, kept here as flags); and the error slot that \<open>DoneWithError\<close> fills.
\<close>

datatype 'q protoRequest = OwnRequest 'q | ForeignRequest

record 'q Message =
  request :: "'q protoRequest"
  markedWrite :: bool
  markedRead :: bool
  merr :: "error option"

definition MarkWrite :: "'q Message \<Rightarrow> 'q Message" where
  "MarkWrite m = m\<lparr>markedWrite := True\<rparr>"

definition MarkRead :: "'q Message \<Rightarrow> 'q Message" where
  "MarkRead m = m\<lparr>markedRead := True\<rparr>"

definition DoneWithError :: "'q Message \<Rightarrow> error \<Rightarrow> 'q Message" where
  "DoneWithError m e = m\<lparr>merr := Some e\<rparr>"

text \<open>The type assertion \<open>m.Request().(*Request)\<close>: \<open>None\<close> when it fails.\<close>

definition assertRequest :: "'q protoRequest \<Rightarrow> 'q option" where
  "assertRequest r = (case r of OwnRequest q \<Rightarrow> Some q | ForeignRequest \<Rightarrow> None)"

section \<open>proto/redis: the node connection\<close>

text \<open>
  The redis \<open>Request\<close> is declared outside src/.  The node connection uses its two resp
  objects, the command \<open>resp\<close> and the \<open>reply\<close>, whose types \<open>'c\<close> and \<open>'r\<close> are left open,
  and calls \<open>isSupport\<close> and \<open>isCtl\<close> on it; these are passed in as functions of the
  command, which decoding a reply does not change.  \<open>req.resp.encode(nc.bw)\<close> is passed in
  as \<open>encode\<close> and acts on the writer.  \<open>skipped\<close> is the test
  \<open>!req.isSupport() || req.isCtl()\<close> of both loops.
\<close>

record ('c, 'r) Request =
  resp :: 'c
  reply :: 'r

type_synonym ('c, 'w) encoder = "'c \<Rightarrow> 'w Writer \<Rightarrow> error option \<times> 'w Writer"

definition skipped :: "('c \<Rightarrow> bool) \<Rightarrow> ('c \<Rightarrow> bool) \<Rightarrow> ('c, 'r) Request \<Rightarrow> bool" where
  "skipped isSupport isCtl req = (\<not> isSupport (resp req) \<or> isCtl (resp req))"

text \<open>
  The loop of \<open>WriteBatch\<close> over the message pointers of \<open>mb.Msgs()\<close>.  It yields the
  messages as the loop leaves them, the writer, and how the loop ended: \<open>Inr None\<close> when
  it ran to the end, \<open>Inr (Some e)\<close> when it returned \<open>e\<close>, \<open>Inl\<close> a panic (a nil message).
\<close>

fun WriteBatch_loop ::
  "('c \<Rightarrow> bool) \<Rightarrow> ('c \<Rightarrow> bool) \<Rightarrow> ('c, 'w) encoder \<Rightarrow> 'w Writer
     \<Rightarrow> ('c, 'r) Request Message option list
     \<Rightarrow> ('c, 'r) Request Message option list \<times> 'w Writer \<times> (panic + error option)" where
  "WriteBatch_loop isSupport isCtl encode w [] = ([], w, Inr None)"
| "WriteBatch_loop isSupport isCtl encode w (None # ms) = (None # ms, w, Inl NilDereference)"
| "WriteBatch_loop isSupport isCtl encode w (Some m # ms) =
     (case assertRequest (request m) of
        None \<Rightarrow> (Some (DoneWithError m ErrBadAssert) # ms, w, Inr (Some ErrBadAssert))
      | Some req \<Rightarrow>
          if skipped isSupport isCtl req then
            (case WriteBatch_loop isSupport isCtl encode w ms of
               (ms', w', r) \<Rightarrow> (Some m # ms', w', r))
          else
            (case encode (resp req) w of
               (Some e, w1) \<Rightarrow> (Some (DoneWithError m e) # ms, w1, Inr (Some e))
             | (None, w1) \<Rightarrow>
                 (case WriteBatch_loop isSupport isCtl encode w1 ms of
                    (ms', w', r) \<Rightarrow> (Some (MarkWrite m) # ms', w', r))))"

text \<open>
  Modelled from the spec: the reader's \<open>Mark\<close>, \<open>AdvanceTo\<close> and \<open>Read\<close> are not in
  src/lib/bufio/io.go: \<open>mark()\<close> is the read position, \<open>advance_to(mark)\<close> moves the read
  position to a mark, \<open>read()\<close> pulls more bytes from the socket (the \<open>fill\<close> of io.go).
  The socket is the list \<open>src\<close> of what its successive reads return, bytes or an error;
  a read past the end of the list returns \<open>io.EOF\<close>.  The buffer is kept by its valid
  bytes \<open>buf[0:w]\<close> and its read position \<open>r\<close>; capacities are not modelled.
\<close>

record Reader =
  rb :: Buffer
  src :: "(error + string) list"

definition fill :: "Reader \<Rightarrow> error option \<times> Reader" where
  "fill rd =
     (case src rd of
        [] \<Rightarrow> (Some EOF, rd)
      | Inl e # rest \<Rightarrow> (Some e, rd\<lparr>src := rest\<rparr>)
      | Inr bs # rest \<Rightarrow>
          if length bs = 0 then (Some ErrNoProgress, rd\<lparr>src := rest\<rparr>)
          else (None, rd\<lparr>rb := (rb rd)\<lparr>bytes := bytes (rb rd) @ bs\<rparr>, src := rest\<rparr>))"

definition Reader_Read :: "Reader \<Rightarrow> error option \<times> Reader" where
  "Reader_Read rd = fill rd"

definition Mark :: "Reader \<Rightarrow> nat" where
  "Mark rd = rpos (rb rd)"

definition AdvanceTo :: "Reader \<Rightarrow> nat \<Rightarrow> Reader" where
  "AdvanceTo rd mark = rd\<lparr>rb := (rb rd)\<lparr>rpos := mark\<rparr>\<rparr>"

text \<open>
  \<open>ResetBuffer\<close> of io.go: the new buffer is reset and receives the unread bytes of the old
  one.  With a nil buffer the call panics: \<open>b.Reset()\<close> rewinds through the nil pointer, and
  the stores \<open>r.b = b; r.b.w = n\<close> would do so at the latest.
\<close>

definition ResetBuffer :: "Reader \<Rightarrow> Buffer option \<Rightarrow> panic + Reader" where
  "ResetBuffer rd b =
     (case b of
        None \<Rightarrow> Inl NilDereference
      | Some b1 \<Rightarrow>
          (let b0 = Buffer_Reset b1;
               unread = drop (rpos (rb rd)) (bytes (rb rd))
           in Inr (rd\<lparr>rb := b0\<lparr>bytes := unread, rpos := 0\<rparr>\<rparr>)))"

text \<open>
  \<open>req.reply.decode(nc.br)\<close> is passed in as \<open>decode\<close>: from the reply object, the
  buffered bytes and the read position it gives the error (if any), the reply object as
  it leaves it, and the read position where it stopped.

  An \<open>attempt\<close> records one call of \<open>decode\<close>: the index of the message, the buffered bytes
  and the read position at the call, the reply object passed, the error returned, the
  reply object as the call left it, and the read position afterwards.  The list of
  attempts is an observation of the run; nothing in the loop reads it.

  The loop's state holds the batch, the reader, and \<open>result\<close>: the value of \<open>err\<close> with
  which the loop returns (\<open>Inr None\<close> is nil), or the panic that ends it.
\<close>

type_synonym 'r decoder = "'r \<Rightarrow> string \<Rightarrow> nat \<Rightarrow> error option \<times> 'r \<times> nat"

record 'r attempt =
  aidx :: int
  abytes :: string
  apos :: nat
  ain :: 'r
  aerr :: "error option"
  aout :: 'r
  aend :: nat

record ('c, 'r) readState =
  batch :: "('c, 'r) Request Message MsgBatch"
  reader :: Reader
  result :: "panic + error option"
  attempts :: "'r attempt list"

function ReadBatch_loop ::
  "('c \<Rightarrow> bool) \<Rightarrow> ('c \<Rightarrow> bool) \<Rightarrow> 'r decoder \<Rightarrow> nat \<Rightarrow> nat \<Rightarrow> int
     \<Rightarrow> ('c, 'r) Request Message MsgBatch \<Rightarrow> Reader \<Rightarrow> ('c, 'r) readState" where
  "ReadBatch_loop isSupport isCtl decode begin now i mb rd =
     (if \<not> i < Count mb then
        \<lparr>batch = mb, reader = rd, result = Inr None, attempts = []\<rparr>
      else
        (case Nth mb i of
           Inl p \<Rightarrow> \<lparr>batch = mb, reader = rd, result = Inl p, attempts = []\<rparr>
         | Inr None \<Rightarrow> \<lparr>batch = mb, reader = rd, result = Inl NilDereference, attempts = []\<rparr>
         | Inr (Some m) \<Rightarrow>
             (case assertRequest (request m) of
                None \<Rightarrow> \<lparr>batch = mb, reader = rd, result = Inr (Some ErrBadAssert), attempts = []\<rparr>
              | Some req \<Rightarrow>
                  if skipped isSupport isCtl req then
                    ReadBatch_loop isSupport isCtl decode begin now (i + 1) mb rd
                  else
                    (case decode (reply req) (bytes (rb rd)) (rpos (rb rd)) of
                       (e, reply', p') \<Rightarrow>
                         let a = \<lparr>aidx = i, abytes = bytes (rb rd), apos = rpos (rb rd), ain = reply req,
                                  aerr = e, aout = reply', aend = p'\<rparr>;
                             rd1 = AdvanceTo rd p';
                             mb1 = mb\<lparr>msgs := (msgs mb)[nat i := Some (m\<lparr>request := OwnRequest (req\<lparr>reply := reply'\<rparr>)\<rparr>)]\<rparr>
                         in
                           if e = Some ErrBufferFull then
                             (case Reader_Read (AdvanceTo rd1 begin) of
                                (Some e2, rd2) \<Rightarrow>
                                  \<lparr>batch = mb1, reader = rd2, result = Inr (Some e2), attempts = [a]\<rparr>
                              | (None, rd2) \<Rightarrow>
                                  (let s = ReadBatch_loop isSupport isCtl decode begin now i mb1
                                             (AdvanceTo rd2 now)
                                   in s\<lparr>attempts := a # attempts s\<rparr>))
                           else if e \<noteq> None then
                             \<lparr>batch = mb1, reader = rd1, result = Inr e, attempts = [a]\<rparr>
                           else
                             (let mb2 = mb\<lparr>msgs := (msgs mb)[nat i :=
                                              Some (MarkRead (m\<lparr>request := OwnRequest (req\<lparr>reply := reply'\<rparr>)\<rparr>))]\<rparr>;
                                  s = ReadBatch_loop isSupport isCtl decode begin (Mark rd1) (i + 1) mb2 rd1
                              in s\<lparr>attempts := a # attempts s\<rparr>)))))"
  by pat_completeness auto
termination
proof (relation "measures [\<lambda>(isS, isC, dec, b, n, i, mb, rd). length (src rd),
                           \<lambda>(isS, isC, dec, b, n, i, mb, rd). nat (int (count mb) - i)]", goal_cases)
  case 1
  show ?case by simp
next
  case 2
  then show ?case by (simp add: Count_def)
next
  case 3
  then show ?case
    by (auto simp: AdvanceTo_def Reader_Read_def fill_def split: list.splits sum.splits if_splits)
next
  case 4
  then show ?case by (simp add: Count_def AdvanceTo_def)
qed

declare ReadBatch_loop.simps [simp del]

text \<open>
  The redis \<open>nodeConn\<close>: writer, reader and the \<open>uint32\<close> state.  \<open>bufio.NewReader(conn, nil)\<close>
  starts without a buffer; an empty buffer stands for that, which \<open>ResetBuffer\<close> treats
  alike when it binds a new one.  The socket is the writer's sink and the reader's source.
\<close>

definition opened :: "32 word" where "opened = 0"
definition closed :: "32 word" where "closed = 1"

record 'w nodeConn =
  bw :: "'w Writer"
  br :: Reader
  state :: "32 word"

definition newNodeConn :: "'w \<Rightarrow> (error + string) list \<Rightarrow> 'w nodeConn" where
  "newNodeConn conn incoming =
     \<lparr>bw = NewWriter conn, br = \<lparr>rb = \<lparr>bytes = [], rpos = 0\<rparr>, src = incoming\<rparr>, state = 0\<rparr>"

text \<open>
  \<open>WriteBatch\<close>: the loop over \<open>mb.Msgs()\<close>, then \<open>Flush\<close> when the loop ran to the end.  The
  messages are reached through pointers, so the batch holds them as the loop left them.
\<close>

definition WriteBatch ::
  "('c \<Rightarrow> bool) \<Rightarrow> ('c \<Rightarrow> bool) \<Rightarrow> ('c, 'w) encoder \<Rightarrow> 'w WriteTo \<Rightarrow> 'w nodeConn
     \<Rightarrow> ('c, 'r) Request Message MsgBatch
     \<Rightarrow> ('c, 'r) Request Message MsgBatch \<times> 'w nodeConn \<times> (panic + error option)" where
  "WriteBatch isSupport isCtl encode wt nc mb =
     (case Msgs mb of
        Inl p \<Rightarrow> (mb, nc, Inl p)
      | Inr ptrs \<Rightarrow>
          (case WriteBatch_loop isSupport isCtl encode (bw nc) ptrs of
             (ptrs', w', r) \<Rightarrow>
               let mb' = mb\<lparr>msgs := ptrs' @ drop (length ptrs') (msgs mb)\<rparr> in
               (case r of
                  Inr None \<Rightarrow> (case Flush wt w' of (e, w'') \<Rightarrow> (mb', nc\<lparr>bw := w''\<rparr>, Inr e))
                | _ \<Rightarrow> (mb', nc\<lparr>bw := w'\<rparr>, r))))"

text \<open>
  \<open>ReadBatch\<close>: the reader is bound to the batch's buffer, both marks are taken, and the
  loop runs from message 0.  When the loop has returned, the deferred
  \<open>nc.br.ResetBuffer(nil)\<close> runs; it panics on the nil buffer, so the call ends in that
  panic on every path and its caller does not receive \<open>err\<close>.  The messages are reached
  through pointers and keep what the loop did to them; the reader is still bound to the
  batch's buffer.
\<close>

definition ReadBatch ::
  "('c \<Rightarrow> bool) \<Rightarrow> ('c \<Rightarrow> bool) \<Rightarrow> 'r decoder \<Rightarrow> 'w nodeConn
     \<Rightarrow> ('c, 'r) Request Message MsgBatch
     \<Rightarrow> ('c, 'r) Request Message MsgBatch \<times> 'w nodeConn \<times> (panic + error option) \<times> 'r attempt list" where
  "ReadBatch isSupport isCtl decode nc mb =
     (case ResetBuffer (br nc) (Some (buf mb)) of
        Inl p \<Rightarrow> (mb, nc, Inl p, [])
      | Inr rd0 \<Rightarrow>
          (let begin = Mark rd0;
               now = Mark rd0;
               s = ReadBatch_loop isSupport isCtl decode begin now 0 mb rd0;
               mb' = (batch s)\<lparr>buf := rb (reader s)\<rparr>
           in (case ResetBuffer (reader s) None of
                 Inl p \<Rightarrow> (mb', nc\<lparr>br := reader s\<rparr>, Inl p, attempts s)
               | Inr rd1 \<Rightarrow> (mb', nc\<lparr>br := rd1\<rparr>, result s, attempts s))))"

text \<open>\<open>Ping\<close> is the pinger's answer, \<open>pong\<close>; \<open>Close\<close> is the compare-and-swap, then \<open>conn.Close()\<close>
  with its result \<open>cerr\<close>.\<close>

definition Ping :: "error option \<Rightarrow> 'w nodeConn \<Rightarrow> error option \<times> 'w nodeConn" where
  "Ping pong nc = (pong, nc)"

definition Close :: "error option \<Rightarrow> 'w nodeConn \<Rightarrow> error option \<times> 'w nodeConn" where
  "Close cerr nc =
     (if state nc = opened then (cerr, nc\<lparr>state := closed\<rparr>)
      else (None, nc))"

text \<open>A caller's operations on a redis node connection, the errors they return and the final connection.\<close>

datatype ('c, 'r) redis_call =
    CallWriteBatch "('c, 'r) Request Message MsgBatch"
  | CallReadBatch "('c, 'r) Request Message MsgBatch"
  | CallPing "error option"
  | CallClose "error option"

fun redis_call_run ::
  "('c \<Rightarrow> bool) \<Rightarrow> ('c \<Rightarrow> bool) \<Rightarrow> ('c, 'w) encoder \<Rightarrow> 'r decoder \<Rightarrow> 'w WriteTo
     \<Rightarrow> 'w nodeConn \<Rightarrow> ('c, 'r) redis_call \<Rightarrow> (panic + error option) \<times> 'w nodeConn" where
  "redis_call_run isSupport isCtl encode decode wt nc (CallWriteBatch mb) =
     (case WriteBatch isSupport isCtl encode wt nc mb of (mb', nc', r) \<Rightarrow> (r, nc'))"
| "redis_call_run isSupport isCtl encode decode wt nc (CallReadBatch mb) =
     (case ReadBatch isSupport isCtl decode nc mb of (mb', nc', r, tr) \<Rightarrow> (r, nc'))"
| "redis_call_run isSupport isCtl encode decode wt nc (CallPing pong) =
     (case Ping pong nc of (e, nc') \<Rightarrow> (Inr e, nc'))"
| "redis_call_run isSupport isCtl encode decode wt nc (CallClose cerr) =
     (case Close cerr nc of (e, nc') \<Rightarrow> (Inr e, nc'))"

fun redis_calls_run ::
  "('c \<Rightarrow> bool) \<Rightarrow> ('c \<Rightarrow> bool) \<Rightarrow> ('c, 'w) encoder \<Rightarrow> 'r decoder \<Rightarrow> 'w WriteTo
     \<Rightarrow> 'w nodeConn \<Rightarrow> ('c, 'r) redis_call list \<Rightarrow> (panic + error option) list \<times> 'w nodeConn" where
  "redis_calls_run isSupport isCtl encode decode wt nc [] = ([], nc)"
| "redis_calls_run isSupport isCtl encode decode wt nc (c # cs) =
     (case redis_call_run isSupport isCtl encode decode wt nc c of
        (r, nc') \<Rightarrow>
          (case redis_calls_run isSupport isCtl encode decode wt nc' cs of
             (rs, nc'') \<Rightarrow> (r # rs, nc'')))"

subsection \<open>What WriteBatch leaves behind\<close>

text \<open>
  For stating what \<open>WriteBatch\<close> does: \<open>passed\<close> is a message as the loop leaves it when it
  goes on to the next one (unchanged when skipped, marked written when encoded);
  \<open>toEncode\<close> lists, in batch order, the requests of the messages that are not skipped;
  \<open>encodeSeq\<close> is the writer after encoding a list of requests one after the other;
  \<open>offends\<close> says that a message makes the loop return error \<open>e\<close> at writer \<open>w\<close>, \<open>passes\<close> that
  it does not make it return.
\<close>

definition passed ::
  "('c \<Rightarrow> bool) \<Rightarrow> ('c \<Rightarrow> bool) \<Rightarrow> ('c, 'r) Request Message \<Rightarrow> ('c, 'r) Request Message" where
  "passed isSupport isCtl m =
     (case assertRequest (request m) of
        None \<Rightarrow> m
      | Some req \<Rightarrow> if skipped isSupport isCtl req then m else MarkWrite m)"

definition toEncode ::
  "('c \<Rightarrow> bool) \<Rightarrow> ('c \<Rightarrow> bool) \<Rightarrow> ('c, 'r) Request Message list \<Rightarrow> 'c list" where
  "toEncode isSupport isCtl ms =
     concat (map (\<lambda>m. case assertRequest (request m) of
                         None \<Rightarrow> []
                       | Some req \<Rightarrow> if skipped isSupport isCtl req then [] else [resp req]) ms)"

definition encodeSeq :: "('c, 'w) encoder \<Rightarrow> 'w Writer \<Rightarrow> 'c list \<Rightarrow> 'w Writer" where
  "encodeSeq encode w cmds = foldl (\<lambda>w' cmd. snd (encode cmd w')) w cmds"

definition offends ::
  "('c \<Rightarrow> bool) \<Rightarrow> ('c \<Rightarrow> bool) \<Rightarrow> ('c, 'w) encoder \<Rightarrow> 'w Writer \<Rightarrow> ('c, 'r) Request Message
     \<Rightarrow> error \<Rightarrow> bool" where
  "offends isSupport isCtl encode w m e =
     (case assertRequest (request m) of
        None \<Rightarrow> e = ErrBadAssert
      | Some req \<Rightarrow> \<not> skipped isSupport isCtl req \<and> fst (encode (resp req) w) = Some e)"

definition passes ::
  "('c \<Rightarrow> bool) \<Rightarrow> ('c \<Rightarrow> bool) \<Rightarrow> ('c, 'w) encoder \<Rightarrow> 'w Writer \<Rightarrow> ('c, 'r) Request Message
     \<Rightarrow> bool" where
  "passes isSupport isCtl encode w m =
     (case assertRequest (request m) of
        None \<Rightarrow> False
      | Some req \<Rightarrow> skipped isSupport isCtl req \<or> fst (encode (resp req) w) = None)"

text \<open>
  What \<open>WriteBatch_loop\<close> yields on the messages \<open>ms\<close>, in the terms above: either it ran to
  the end, or it stopped at the first offending message \<open>k\<close>.
\<close>

definition loop_outcome ::
  "('c \<Rightarrow> bool) \<Rightarrow> ('c \<Rightarrow> bool) \<Rightarrow> ('c, 'w) encoder \<Rightarrow> 'w Writer \<Rightarrow> ('c, 'r) Request Message list
     \<Rightarrow> ('c, 'r) Request Message option list \<Rightarrow> 'w Writer \<Rightarrow> panic + error option \<Rightarrow> bool" where
  "loop_outcome isS isC enc w ms ms' w' r =
   ((r = Inr None
      \<and> ms' = map (\<lambda>m. Some (passed isS isC m)) ms
      \<and> w' = encodeSeq enc w (toEncode isS isC ms)
      \<and> (\<forall>j<length ms. passes isS isC enc (encodeSeq enc w (toEncode isS isC (take j ms))) (ms ! j)))
    \<or> (\<exists>k e. k < length ms \<and> r = Inr (Some e)
          \<and> offends isS isC enc (encodeSeq enc w (toEncode isS isC (take k ms))) (ms ! k) e
          \<and> (\<forall>j<k. passes isS isC enc (encodeSeq enc w (toEncode isS isC (take j ms))) (ms ! j))
          \<and> ms' = map (\<lambda>m. Some (passed isS isC m)) (take k ms)
                    @ Some (DoneWithError (ms ! k) e) # map Some (drop (Suc k) ms)
          \<and> w' = encodeSeq enc w (toEncode isS isC (take (Suc k) ms))))"

subsection \<open>Reading the attempts of ReadBatch\<close>

text \<open>
  \<open>replyStart b as\<close>: the start of the current reply after the attempts \<open>as\<close>, that is the
  read position right after the last successful decode, or the mark \<open>b\<close> taken at the
  start of the batch when none succeeded yet.  \<open>decoded as\<close> are the successful attempts
  among \<open>as\<close>, and \<open>reads as\<close> counts the attempts that ended in \<open>ErrBufferFull\<close>, each of
  which is followed by one \<open>Read\<close> of the socket.
\<close>

fun replyStart :: "nat \<Rightarrow> 'r attempt list \<Rightarrow> nat" where
  "replyStart b [] = b"
| "replyStart b (a # as) = replyStart (if aerr a = None then aend a else b) as"

definition decoded :: "'r attempt list \<Rightarrow> 'r attempt list" where
  "decoded as = filter (\<lambda>a. aerr a = None) as"

definition reads :: "'r attempt list \<Rightarrow> nat" where
  "reads as = length (filter (\<lambda>a. aerr a = Some ErrBufferFull) as)"

text \<open>A message of the batch that the loop does not skip: it is there, it is a redis request,
  and the skip test fails.\<close>

definition decodable ::
  "('c \<Rightarrow> bool) \<Rightarrow> ('c \<Rightarrow> bool) \<Rightarrow> ('c, 'r) Request Message MsgBatch \<Rightarrow> int \<Rightarrow> bool" where
  "decodable isSupport isCtl mb i =
     (0 \<le> i \<and> i < Count mb \<and>
      (case Nth mb i of
         Inr (Some m) \<Rightarrow>
           (case assertRequest (request m) of
              Some req \<Rightarrow> \<not> skipped isSupport isCtl req
            | None \<Rightarrow> False)
       | _ \<Rightarrow> False))"

text \<open>The indices from \<open>i\<close> on of the messages that are not skipped, in batch order.\<close>

definition pending ::
  "('c \<Rightarrow> bool) \<Rightarrow> ('c \<Rightarrow> bool) \<Rightarrow> ('c, 'r) Request Message MsgBatch \<Rightarrow> int \<Rightarrow> int list" where
  "pending isSupport isCtl mb i = filter (decodable isSupport isCtl mb) [i..Count mb - 1]"

text \<open>The reply object of the redis request at index \<open>i\<close>, and whether every message of the
  batch is a redis request.\<close>

definition replyAt :: "('c, 'r) Request Message MsgBatch \<Rightarrow> int \<Rightarrow> 'r option" where
  "replyAt mb i =
     (case Nth mb i of
        Inr (Some m) \<Rightarrow> map_option reply (assertRequest (request m))
      | _ \<Rightarrow> None)"

definition allRequests :: "('c, 'r) Request Message MsgBatch \<Rightarrow> bool" where
  "allRequests mb = list_all (\<lambda>i. replyAt mb i \<noteq> None) [0..Count mb - 1]"

text \<open>
  The shape of a list of attempts, ending with the result \<open>res\<close>, that starts with the loop
  at message \<open>i\<close> (\<open>retry\<close>: the loop is about to decode message \<open>i\<close> itself), the indices
  \<open>pend\<close> still to decode, the mark \<open>now\<close>, the buffered bytes \<open>bs\<close>, the socket \<open>sk\<close> and
  the reply objects \<open>rep\<close>.  Each attempt is a call of \<open>decode\<close> for the first index still
  to decode, on that message's reply object, at the mark and on the buffered bytes.  After
  a success the loop is past that message, with the mark at the end of the reply.  After
  \<open>ErrBufferFull\<close> the socket is read with the read position at \<open>b0\<close>: when that fails the list
  ends with the error; otherwise the loop is at the same message with the same mark and the
  bytes read appended, and another attempt follows.  Any other error ends the list.  When
  no attempt is left, a nil result means that nothing is left to decode; \<open>allreq\<close> tells that
  every message is a redis request, and then the result is nil.
\<close>

fun trace_ok ::
  "'r decoder \<Rightarrow> nat \<Rightarrow> bool \<Rightarrow> (panic + error option) \<Rightarrow> (int \<Rightarrow> 'r option) \<Rightarrow> bool \<Rightarrow> int
     \<Rightarrow> int list \<Rightarrow> nat \<Rightarrow> string \<Rightarrow> (error + string) list \<Rightarrow> 'r attempt list \<Rightarrow> bool" where
  "trace_ok dec b0 allreq res rep retry i pend now bs sk [] =
     (\<not> retry \<and> (res = Inr None \<longrightarrow> pend = []) \<and> (allreq \<longrightarrow> res = Inr None))"
| "trace_ok dec b0 allreq res rep retry i pend now bs sk (a # as) =
     ((if retry then aidx a = i else i \<le> aidx a) \<and> pend \<noteq> [] \<and> aidx a = hd pend
      \<and> apos a = now \<and> abytes a = bs \<and> rep (aidx a) = Some (ain a)
      \<and> dec (ain a) bs now = (aerr a, aout a, aend a)
      \<and> (case aerr a of
           None \<Rightarrow>
             trace_ok dec b0 allreq res (rep(aidx a \<mapsto> aout a)) False (aidx a + 1) (tl pend) (aend a) bs sk as
         | Some e \<Rightarrow>
             if e = ErrBufferFull then
               (case Reader_Read \<lparr>rb = \<lparr>bytes = bs, rpos = b0\<rparr>, src = sk\<rparr> of
                  (None, rd') \<Rightarrow>
                    trace_ok dec b0 allreq res (rep(aidx a \<mapsto> aout a)) True (aidx a) pend now
                      (bytes (rb rd')) (src rd') as
                | (Some e2, rd') \<Rightarrow> as = [] \<and> res = Inr (Some e2))
             else as = [] \<and> res = Inr (Some e)))"

section \<open>proto/memcache: the node connection\<close>

text \<open>
  The memcache \<open>nodeConn\<close>: the writer, the reader, the \<open>int32\<close> flag \<open>closed\<close> and whether the pinger is
  set (\<open>Close\<close> sets it to nil).  \<open>MCRequest\<close> is declared outside src/; \<open>Write\<close> reads its
  type, key and data, and the text of the type, \<open>rTp.String()\<close>, is passed in.
\<close>

definition handlerOpening :: "32 word" where "handlerOpening = 0"
definition handlerClosed :: "32 word" where "handlerClosed = 1"

datatype RequestType =
  RequestTypeGet | RequestTypeGets | RequestTypeGat | RequestTypeGats | RequestTypeOther nat

record MCRequest =
  rTp :: RequestType
  key :: "string option"
  mdata :: "string option"

record 'w mc_nodeConn =
  mc_bw :: "'w Writer"
  mc_br :: Reader
  mc_closed :: "32 word"
  mc_pinger :: bool

definition mc_NewNodeConn :: "'w \<Rightarrow> (error + string) list \<Rightarrow> 'w mc_nodeConn" where
  "mc_NewNodeConn conn incoming =
     \<lparr>mc_bw = NewWriter conn, mc_br = \<lparr>rb = \<lparr>bytes = [], rpos = 0\<rparr>, src = incoming\<rparr>,
      mc_closed = 0, mc_pinger = True\<rparr>"

definition mc_Closed :: "'w mc_nodeConn \<Rightarrow> bool" where
  "mc_Closed n = (mc_closed n = handlerClosed)"

definition mc_Ping :: "error option \<Rightarrow> 'w mc_nodeConn \<Rightarrow> error option \<times> 'w mc_nodeConn" where
  "mc_Ping pong n = (if mc_Closed n then (Some EOF, n) else (pong, n))"

definition spaceBytes :: string where "spaceBytes = '' ''"
definition crlfBytes :: string where "crlfBytes = [CHR 0x0D, CHR 0x0A]"

definition mc_Write ::
  "(RequestType \<Rightarrow> string) \<Rightarrow> 'w WriteTo \<Rightarrow> 'w mc_nodeConn \<Rightarrow> MCRequest Message
     \<Rightarrow> error option \<times> 'w mc_nodeConn" where
  "mc_Write rTpString wt n m =
     (if mc_Closed n then (Some (Wrap ErrClosed ''MC Handler handle Msg''), n)
      else
        (case assertRequest (request m) of
           None \<Rightarrow> (Some (Wrap ErrAssertMsg ''MC Handler handle assert MCMsg''), n)
         | Some mcr \<Rightarrow>
             let w1 = snd (WriteString wt (mc_bw n) (rTpString (rTp mcr)));
                 w2 = snd (Write wt w1 (Some spaceBytes));
                 w3 = (if rTp mcr = RequestTypeGat \<or> rTp mcr = RequestTypeGats then
                         (let a = snd (Write wt w2 (mdata mcr));
                              b = snd (Write wt a (Some spaceBytes));
                              c = snd (Write wt b (key mcr))
                          in snd (Write wt c (Some crlfBytes)))
                       else
                         (let a = snd (Write wt w2 (key mcr))
                          in snd (Write wt a (mdata mcr))))
             in (case Flush wt w3 of
                   (Some e, w4) \<Rightarrow> (Some (Wrap e ''MC Handler handle flush Msg bytes''), n\<lparr>mc_bw := w4\<rparr>)
                 | (None, w4) \<Rightarrow> (None, n\<lparr>mc_bw := w4\<rparr>))))"

text \<open>
  \<open>Read\<close>: the guard on the closed flag, then the reading of one reply from the socket,
  which is passed in as \<open>readReply\<close> and acts on the reader.
\<close>

definition mc_Read ::
  "(Reader \<Rightarrow> MCRequest Message \<Rightarrow> error option \<times> Reader) \<Rightarrow> 'w mc_nodeConn
     \<Rightarrow> MCRequest Message \<Rightarrow> error option \<times> 'w mc_nodeConn" where
  "mc_Read readReply n m =
     (if mc_Closed n then (Some (Wrap ErrClosed ''MC Handler handle Msg''), n)
      else (case readReply (mc_br n) m of (e, rd) \<Rightarrow> (e, n\<lparr>mc_br := rd\<rparr>)))"

definition mc_Close :: "error option \<Rightarrow> 'w mc_nodeConn \<Rightarrow> error option \<times> 'w mc_nodeConn" where
  "mc_Close cerr n =
     (if mc_closed n = handlerOpening
      then (cerr, n\<lparr>mc_closed := handlerClosed, mc_pinger := False\<rparr>)
      else (None, n))"

datatype mc_call =
    McPing "error option"
  | McWrite "MCRequest Message"
  | McRead "MCRequest Message"
  | McClose "error option"

fun mc_call_run ::
  "(RequestType \<Rightarrow> string) \<Rightarrow> 'w WriteTo \<Rightarrow> (Reader \<Rightarrow> MCRequest Message \<Rightarrow> error option \<times> Reader)
     \<Rightarrow> 'w mc_nodeConn \<Rightarrow> mc_call \<Rightarrow> error option \<times> 'w mc_nodeConn" where
  "mc_call_run rTpString wt readReply n (McPing pong) = mc_Ping pong n"
| "mc_call_run rTpString wt readReply n (McWrite m) = mc_Write rTpString wt n m"
| "mc_call_run rTpString wt readReply n (McRead m) = mc_Read readReply n m"
| "mc_call_run rTpString wt readReply n (McClose cerr) = mc_Close cerr n"

fun mc_calls_run ::
  "(RequestType \<Rightarrow> string) \<Rightarrow> 'w WriteTo \<Rightarrow> (Reader \<Rightarrow> MCRequest Message \<Rightarrow> error option \<times> Reader)
     \<Rightarrow> 'w mc_nodeConn \<Rightarrow> mc_call list \<Rightarrow> error option list \<times> 'w mc_nodeConn" where
  "mc_calls_run rTpString wt readReply n [] = ([], n)"
| "mc_calls_run rTpString wt readReply n (c # cs) =
     (case mc_call_run rTpString wt readReply n c of
        (e, n') \<Rightarrow>
          (case mc_calls_run rTpString wt readReply n' cs of
             (es, n'') \<Rightarrow> (e # es, n'')))"

text \<open>What each call returns on a closed memcache connection.\<close>

fun mc_closed_reply :: "mc_call \<Rightarrow> error option" where
  "mc_closed_reply (McPing pong) = Some EOF"
| "mc_closed_reply (McWrite m) = Some (Wrap ErrClosed ''MC Handler handle Msg'')"
| "mc_closed_reply (McRead m) = Some (Wrap ErrClosed ''MC Handler handle Msg'')"
| "mc_closed_reply (McClose cerr) = None"

section \<open>proxy: the handler's work on one frame\<close>

text \<open>
  The steps of \<open>Handler.handle\<close> on one frame after \<open>Decode\<close> returned the messages \<open>frame\<close>, as
  the list of events in the order the handler takes them: the dispatch, one wait per
  batch, the encoding of the messages (with its result) each followed by \<open>MarkEnd\<close>, the
  flush, and either the release of messages and batches or \<open>deferHandle\<close> with the error
  that ends the handler.  The proxy connection is a state of any type; its \<open>Encode\<close> and
  \<open>Flush\<close> are passed in.  What the cluster and the backends do between dispatch and the end
  of the waits is outside the handler; \<open>frame\<close> holds the messages as \<open>Encode\<close> finds them.
\<close>

datatype hevent =
    EvDispatch nat
  | EvWait nat
  | EvEncode nat "error option"
  | EvMarkEnd nat
  | EvFlush "error option"
  | EvResetMsg nat
  | EvResetBatch nat
  | EvDefer error

type_synonym ('pc, 'm) pcEncode = "'pc \<Rightarrow> 'm \<Rightarrow> error option \<times> 'pc"
type_synonym 'pc pcFlush = "'pc \<Rightarrow> error option \<times> 'pc"

text \<open>The encode loop from message number \<open>i\<close>: events, proxy connection, and the error it returned with.\<close>

fun encode_loop ::
  "('pc, 'm) pcEncode \<Rightarrow> 'pc \<Rightarrow> nat \<Rightarrow> 'm list \<Rightarrow> hevent list \<times> 'pc \<times> error option" where
  "encode_loop Encode pc i [] = ([], pc, None)"
| "encode_loop Encode pc i (m # ms) =
     (case Encode pc m of
        (Some e, pc1) \<Rightarrow> ([EvEncode i (Some e)], pc1, Some e)
      | (None, pc1) \<Rightarrow>
          (case encode_loop Encode pc1 (i + 1) ms of
             (evs, pc2, r) \<Rightarrow> (EvEncode i None # EvMarkEnd i # evs, pc2, r)))"

definition handle_frame ::
  "('pc, 'm) pcEncode \<Rightarrow> 'pc pcFlush \<Rightarrow> nat \<Rightarrow> 'pc \<Rightarrow> 'm list \<Rightarrow> hevent list \<times> 'pc \<times> error option" where
  "handle_frame Encode pcFlush nb pc frame =
     (let pre = EvDispatch (length frame) # map EvWait [0..<nb] in
      case encode_loop Encode pc 0 frame of
        (evs, pc1, Some e) \<Rightarrow>
          (case pcFlush pc1 of (fe, pc2) \<Rightarrow> (pre @ evs @ [EvFlush fe, EvDefer e], pc2, Some e))
      | (evs, pc1, None) \<Rightarrow>
          (case pcFlush pc1 of
             (Some e, pc2) \<Rightarrow> (pre @ evs @ [EvFlush (Some e), EvDefer e], pc2, Some e)
           | (None, pc2) \<Rightarrow>
               (pre @ evs @ [EvFlush None] @ map EvResetMsg [0..<length frame] @ map EvResetBatch [0..<nb],
                pc2, None)))"

text \<open>
  The loop of \<open>handle\<close> over what the successive calls of \<open>Decode\<close> return, an error or a
  frame of messages, with the slot count \<open>lm\<close> it passes on; when the list is used up the
  handler waits in \<open>Decode\<close>.
\<close>

fun handle ::
  "('pc, 'm) pcEncode \<Rightarrow> 'pc pcFlush \<Rightarrow> nat \<Rightarrow> 'pc \<Rightarrow> int \<Rightarrow> (error + 'm list) list
     \<Rightarrow> (int \<times> hevent list) list" where
  "handle Encode pcFlush nb pc lm [] = []"
| "handle Encode pcFlush nb pc lm (Inl e # rest) = [(lm, [EvDefer e])]"
| "handle Encode pcFlush nb pc lm (Inr frame # rest) =
     (case handle_frame Encode pcFlush nb pc frame of
        (evs, pc1, Some e) \<Rightarrow> [(lm, evs)]
      | (evs, pc1, None) \<Rightarrow>
          (lm, evs) # handle Encode pcFlush nb pc1 (resetMaxConcurrent lm (int (length frame))) rest)"




text \<open>The number of messages of what \<open>Decode\<close> returned (0 for an error).\<close>

definition frameLen :: "error + 'm list \<Rightarrow> int" where
  "frameLen d = (case d of Inr frame \<Rightarrow> int (length frame) | Inl e \<Rightarrow> 0)"

section \<open>Concrete inputs\<close>

text \<open>
  A small dialect for running the node connection on concrete batches: commands and
  replies are lines of text, \<open>PING\<close> is the control command and \<open>KEYS\<close> is unsupported, the
  encoder queues the command text on the writer, the socket appends what is flushed, and
  the decoder takes one line ended by a line feed, returning \<open>ErrBufferFull\<close> (with the read
  position left at the end of the buffer) when the line feed has not arrived.
\<close>

definition msg :: "'q protoRequest \<Rightarrow> 'q Message" where
  "msg r = \<lparr>request = r, markedWrite = False, markedRead = False, merr = None\<rparr>"

definition cmd :: "string \<Rightarrow> (string, string) Request Message" where
  "cmd c = msg (OwnRequest \<lparr>resp = c, reply = []\<rparr>)"

definition isSupport_text :: "string \<Rightarrow> bool" where
  "isSupport_text c = (c \<noteq> ''KEYS'')"

definition isCtl_text :: "string \<Rightarrow> bool" where
  "isCtl_text c = (c = ''PING'')"

definition sink_append :: "string list WriteTo" where
  "sink_append bs s = (None, s @ bs)"

definition encode_text :: "(string, string list) encoder" where
  "encode_text c w = Write sink_append w (Some c)"

definition decode_line :: "string decoder" where
  "decode_line rep bs p =
     (let rest = drop p bs in
      if CHR 0x0A \<in> set rest
      then (None, takeWhile (\<lambda>c. c \<noteq> CHR 0x0A) rest, p + length (takeWhile (\<lambda>c. c \<noteq> CHR 0x0A) rest) + 1)
      else (Some ErrBufferFull, rest, length bs))"

definition batch_of :: "'m list \<Rightarrow> 'm MsgBatch" where
  "batch_of ms = \<lparr>buf = \<lparr>bytes = [], rpos = 0\<rparr>, msgs = map Some ms, count = length ms\<rparr>"

definition write_msgs :: "(string, string) Request Message list" where
  "write_msgs = [cmd ''GET a'', cmd ''PING'', msg ForeignRequest, cmd ''GET c'']"

definition LF :: char where
  "LF = CHR 0x0A"

definition read_msgs :: "(string, string) Request Message list" where
  "read_msgs = [cmd ''GET a'', cmd ''PING'', cmd ''GET b'']"

text \<open>The backend's two replies arrive in two reads, the second reply cut in two.\<close>

definition read_conn :: "string list nodeConn" where
  "read_conn = newNodeConn [] [Inr (''va'' @ [LF] @ ''v''), Inr (''b'' @ [LF])]"

definition read_batch :: "(string, string) Request Message MsgBatch" where
  "read_batch = batch_of read_msgs"

definition read_attempts :: "string attempt list" where
  "read_attempts =
     [\<lparr>aidx = 0, abytes = [], apos = 0, ain = [],
       aerr = Some ErrBufferFull, aout = [], aend = 0\<rparr>,
      \<lparr>aidx = 0, abytes = ''va'' @ [LF] @ ''v'', apos = 0, ain = [],
       aerr = None, aout = ''va'', aend = 3\<rparr>,
      \<lparr>aidx = 2, abytes = ''va'' @ [LF] @ ''v'', apos = 3, ain = [],
       aerr = Some ErrBufferFull, aout = ''v'', aend = 4\<rparr>,
      \<lparr>aidx = 2, abytes = ''va'' @ [LF] @ ''vb'' @ [LF], apos = 3, ain = ''v'',
       aerr = None, aout = ''vb'', aend = 6\<rparr>]"

text \<open>The reader bound to the buffer of that batch, and the state in which the loop ends.\<close>

definition read_rd0 :: Reader where
  "read_rd0 = \<lparr>rb = \<lparr>bytes = [], rpos = 0\<rparr>, src = [Inr (''va'' @ [LF] @ ''v''), Inr (''b'' @ [LF])]\<rparr>"

definition read_end :: "(string, string) readState" where
  "read_end =
     \<lparr>batch = \<lparr>buf = \<lparr>bytes = [], rpos = 0\<rparr>,
               msgs = [Some (MarkRead (msg (OwnRequest \<lparr>resp = ''GET a'', reply = ''va''\<rparr>))),
                       Some (cmd ''PING''),
                       Some (MarkRead (msg (OwnRequest \<lparr>resp = ''GET b'', reply = ''vb''\<rparr>)))],
               count = 3\<rparr>,
      reader = \<lparr>rb = \<lparr>bytes = ''va'' @ [LF] @ ''vb'' @ [LF], rpos = 6\<rparr>, src = []\<rparr>,
      result = Inr None,
      attempts = read_attempts\<rparr>"



section \<open>Properties\<close>

subsection \<open>The vectored writer\<close>

lemma flush_sticky: "err w = Some e \<Longrightarrow> Flush wt w = (Some e, w)"
  by (simp add: Flush_def)

lemma write_sticky: "err w = Some e \<Longrightarrow> Write wt w p = (Some e, w)"
  by (simp add: Write_def)

lemma flush_fails_sets_err: "Flush wt w = (Some e, w') \<Longrightarrow> err w' = Some e"
  by (auto simp: Flush_def Let_def split: option.splits if_splits prod.splits)

lemma wcalls_sticky: "err w = Some e \<Longrightarrow> wcalls_run wt w cs = replicate (length cs) (Some e)"
proof (induction cs)
  case Nil
  show ?case by simp
next
  case (Cons c cs)
  have "wcall_run wt w c = (Some e, w)"
    using Cons.prems by (cases c) (simp_all add: flush_sticky write_sticky)
  with Cons show ?case by simp
qed

lemma write_inner_flush_fails:
  assumes "err w = None" "length (bufs w) = 10" "fst (Flush wt w) = Some e"
  shows "\<exists>w'. Write wt w (Some bs) = (None, w') \<and> err w' = Some e"
proof -
  obtain w1 where f: "Flush wt w = (Some e, w1)" using assms(3) by (cases "Flush wt w") simp
  then have "err w1 = Some e" by (rule flush_fails_sets_err)
  then show ?thesis using assms(1,2) f by (simp add: Write_def)
qed

text \<open>
  C9. Once a flush has failed with error \<open>e\<close>, every later call of \<open>Write\<close> and of \<open>Flush\<close> on
  that writer returns \<open>e\<close>, whatever the calls are (so the writer never recovers).  This
  holds as well for the flush that \<open>Write\<close> runs itself at ten queued slices: that call of
  \<open>Write\<close> drops the flush's result and returns nil, and every call after it returns \<open>e\<close>.
  A flush of a writer with nothing queued and no earlier error returns nil and changes
  nothing.
\<close>

theorem writer_error_sticky:
  "(Flush wt w = (Some e, w') \<longrightarrow> wcalls_run wt w' cs = replicate (length cs) (Some e))
   \<and> (err w1 = None \<and> length (bufs w1) = 10 \<and> fst (Flush wt w1) = Some e1 \<longrightarrow>
        (\<exists>w2. Write wt w1 (Some bs) = (None, w2)
              \<and> wcalls_run wt w2 cs1 = replicate (length cs1) (Some e1)))
   \<and> (err w0 = None \<and> bufs w0 = [] \<longrightarrow> Flush wt w0 = (None, w0))"
proof (intro conjI impI)
  assume "Flush wt w = (Some e, w')"
  then have "err w' = Some e" by (rule flush_fails_sets_err)
  then show "wcalls_run wt w' cs = replicate (length cs) (Some e)" by (rule wcalls_sticky)
next
  assume a: "err w1 = None \<and> length (bufs w1) = 10 \<and> fst (Flush wt w1) = Some e1"
  then obtain w2 where w2: "Write wt w1 (Some bs) = (None, w2)" "err w2 = Some e1"
    using write_inner_flush_fails[of w1 wt e1 bs] by blast
  then show "\<exists>w2. Write wt w1 (Some bs) = (None, w2)
              \<and> wcalls_run wt w2 cs1 = replicate (length cs1) (Some e1)"
    using wcalls_sticky[OF w2(2)] by blast
next
  assume "err w0 = None \<and> bufs w0 = []"
  then show "Flush wt w0 = (None, w0)" by (simp add: Flush_def)
qed

theorem writer_error_sticky_witness:
  "Flush (\<lambda>bs s. (Some (IOError 1), s)) \<lparr>wr = (), bufs = [''a''], err = None\<rparr>
     = (Some (IOError 1), \<lparr>wr = (), bufs = [], err = Some (IOError 1)\<rparr>)
   \<and> wcalls_run (\<lambda>bs s. (Some (IOError 1), s)) \<lparr>wr = (), bufs = [], err = Some (IOError 1)\<rparr>
        [CallWrite (Some ''b''), CallFlush, CallWrite None]
     = [Some (IOError 1), Some (IOError 1), Some (IOError 1)]
   \<and> fst (Flush (\<lambda>bs s. (Some (IOError 1), s)) \<lparr>wr = (), bufs = replicate 10 ''x'', err = None\<rparr>)
     = Some (IOError 1)
   \<and> (\<exists>w2. Write (\<lambda>bs s. (Some (IOError 1), s)) \<lparr>wr = (), bufs = replicate 10 ''x'', err = None\<rparr> (Some ''y'')
              = (None, w2)
            \<and> wcalls_run (\<lambda>bs s. (Some (IOError 1), s)) w2 [CallFlush, CallWrite (Some ''z'')]
              = [Some (IOError 1), Some (IOError 1)])
   \<and> Flush (\<lambda>bs s. (Some (IOError 1), s)) (NewWriter ()) = (None, NewWriter ())"
proof -
  let ?wt = "\<lambda>(bs :: string list) (s :: unit). (Some (IOError 1), s)"
  let ?w = "\<lparr>wr = (), bufs = [''a''], err = None\<rparr>"
  let ?w' = "\<lparr>wr = (), bufs = [], err = Some (IOError 1)\<rparr>"
  let ?w1 = "\<lparr>wr = (), bufs = replicate 10 ''x'', err = None\<rparr>"
  let ?cs = "[CallWrite (Some ''b''), CallFlush, CallWrite None]"
  let ?cs1 = "[CallFlush, CallWrite (Some ''z'')]"
  have f: "Flush ?wt ?w = (Some (IOError 1), ?w')"
    by (simp add: Flush_def)
  have g: "err ?w1 = None \<and> length (bufs ?w1) = 10 \<and> fst (Flush ?wt ?w1) = Some (IOError 1)"
    by (simp add: Flush_def)
  have n: "err (NewWriter ()) = None \<and> bufs (NewWriter ()) = []"
    by (simp add: NewWriter_def)
  note t = writer_error_sticky [of ?wt ?w "IOError 1" ?w' ?cs ?w1 "IOError 1" "''y''" ?cs1 "NewWriter ()"]
  from t f have 1: "wcalls_run ?wt ?w' ?cs = replicate (length ?cs) (Some (IOError 1))" by blast
  from t g have 2: "\<exists>w2. Write ?wt ?w1 (Some ''y'') = (None, w2)
            \<and> wcalls_run ?wt w2 ?cs1 = replicate (length ?cs1) (Some (IOError 1))" by blast
  from t n have 3: "Flush ?wt (NewWriter ()) = (None, NewWriter ())" by blast
  have 4: "fst (Flush ?wt ?w1) = Some (IOError 1)" using g by blast
  show ?thesis using f 1 2 3 4 by (simp add: numeral_3_eq_3 numeral_2_eq_2)
qed

subsection \<open>MsgBatch\<close>

lemma AddMsg_inv:
  assumes "count m \<le> length (msgs m)"
  shows "count (AddMsg m x) = count m + 1"
    and "count (AddMsg m x) \<le> length (msgs (AddMsg m x))"
    and "take (count (AddMsg m x)) (msgs (AddMsg m x)) = take (count m) (msgs m) @ [x]"
  using assms
  by (auto simp: AddMsg_def Let_def nat_add_distrib take_Suc_conv_app_nth upd_conv_take_nth_drop min_def)

lemma foldl_AddMsg:
  "count m \<le> length (msgs m) \<Longrightarrow>
   count (foldl AddMsg m xs) = count m + length xs \<and>
   count (foldl AddMsg m xs) \<le> length (msgs (foldl AddMsg m xs)) \<and>
   take (count (foldl AddMsg m xs)) (msgs (foldl AddMsg m xs)) = take (count m) (msgs m) @ xs"
proof (induction xs arbitrary: m)
  case Nil
  then show ?case by simp
next
  case (Cons x xs)
  note a = AddMsg_inv[OF Cons.prems, of x]
  from Cons.IH[OF a(2)]
  have ih1: "count (foldl AddMsg (AddMsg m x) xs) = count (AddMsg m x) + length xs"
    and ih2: "count (foldl AddMsg (AddMsg m x) xs) \<le> length (msgs (foldl AddMsg (AddMsg m x) xs))"
    and ih3: "take (count (foldl AddMsg (AddMsg m x) xs)) (msgs (foldl AddMsg (AddMsg m x) xs))
              = take (count (AddMsg m x)) (msgs (AddMsg m x)) @ xs"
    by blast+
  show ?case using ih1 ih2 ih3 unfolding a(3) by (simp add: a(1))
qed

text \<open>
  C10. After a \<open>Reset\<close> of any batch and the calls \<open>AddMsg\<close> for the messages \<open>ms\<close> in
  order, \<open>Count\<close> is the number of messages added, \<open>Nth i\<close> is the \<open>i\<close>-th message added for
  \<open>0 \<le> i < k\<close> and nil, without a panic, for every \<open>i \<ge> k\<close>; \<open>Msgs\<close> is the list added;
  and a further \<open>Reset\<close> brings the count to 0 and \<open>Msgs\<close> to the empty slice.
\<close>

theorem msgbatch_add_count_nth:
  "Count (foldl AddMsg (Reset mb) ms) = int (length ms)
   \<and> (\<forall>i. 0 \<le> i \<and> i < int (length ms) \<longrightarrow> Nth (foldl AddMsg (Reset mb) ms) i = Inr (ms ! nat i))
   \<and> (\<forall>i. int (length ms) \<le> i \<longrightarrow> Nth (foldl AddMsg (Reset mb) ms) i = Inr None)
   \<and> Msgs (foldl AddMsg (Reset mb) ms) = Inr ms
   \<and> Count (Reset (foldl AddMsg (Reset mb) ms)) = 0
   \<and> Msgs (Reset (foldl AddMsg (Reset mb) ms)) = Inr []"
proof -
  let ?m = "foldl AddMsg (Reset mb) ms"
  have r: "count (Reset mb) \<le> length (msgs (Reset mb))"
    by (simp add: Reset_def)
  have c0: "count (Reset mb) = 0" by (simp add: Reset_def)
  note f = foldl_AddMsg[OF r, of ms]
  have c: "count ?m = length ms" using f c0 by simp
  have l: "count ?m \<le> length (msgs ?m)" using f by blast
  have "take (count ?m) (msgs ?m) = take (count (Reset mb)) (msgs (Reset mb)) @ ms"
    using f by blast
  then have t': "take (length ms) (msgs ?m) = ms" unfolding c c0 by simp
  have n: "msgs ?m ! nat i = ms ! nat i" if "0 \<le> i" "i < int (length ms)" for i
  proof -
    have "nat i < length ms" using that by simp
    then have "take (length ms) (msgs ?m) ! nat i = msgs ?m ! nat i" by simp
    then show ?thesis using t' by simp
  qed
  have l': "length ms \<le> length (msgs ?m)" using l c by simp
  show ?thesis
    using c l' t' n by (simp add: Count_def Nth_def Msgs_def) (simp add: Reset_def)
qed

theorem msgbatch_add_count_nth_witness:
  "Count (foldl AddMsg (Reset NewMsgBatch) [Some (10::nat), Some 20, Some 30]) = 3
   \<and> Nth (foldl AddMsg (Reset NewMsgBatch) [Some (10::nat), Some 20, Some 30]) 0 = Inr (Some 10)
   \<and> Nth (foldl AddMsg (Reset NewMsgBatch) [Some (10::nat), Some 20, Some 30]) 2 = Inr (Some 30)
   \<and> Nth (foldl AddMsg (Reset NewMsgBatch) [Some (10::nat), Some 20, Some 30]) 3 = Inr None
   \<and> Nth (foldl AddMsg (Reset NewMsgBatch) [Some (10::nat), Some 20, Some 30]) 1024 = Inr None"
proof -
  let ?ms = "[Some (10::nat), Some 20, Some 30]"
  let ?m = "foldl AddMsg (Reset NewMsgBatch) ?ms"
  note t = msgbatch_add_count_nth [of NewMsgBatch ?ms]
  from t have c: "Count ?m = int (length ?ms)" by blast
  from t have a: "\<And>i. 0 \<le> i \<and> i < int (length ?ms) \<Longrightarrow> Nth ?m i = Inr (?ms ! nat i)" by blast
  from t have b: "\<And>i. int (length ?ms) \<le> i \<Longrightarrow> Nth ?m i = Inr None" by blast
  have "Nth ?m 0 = Inr (?ms ! nat 0)" by (rule a) simp
  moreover have "Nth ?m 2 = Inr (?ms ! nat 2)" by (rule a) simp
  moreover have "Nth ?m 3 = Inr None" by (rule b) simp
  moreover have "Nth ?m 1024 = Inr None" by (rule b) simp
  ultimately show ?thesis using c by (simp add: numeral_2_eq_2)
qed

subsection \<open>The handler's slot count\<close>

lemma slots_snoc: "slots (cs @ [c]) = resetMaxConcurrent (slots cs) c"
  by (simp add: slots_def)

lemma slots_pow2: "\<exists>k. 1 \<le> k \<and> k \<le> (10::nat) \<and> slots cs = 2 ^ k"
proof (induction cs rule: rev_induct)
  case Nil
  have "slots [] = 2 ^ (1::nat)" by (simp add: slots_def defaultConcurrent_def)
  then show ?case by (intro exI[of _ 1]) simp
next
  case (snoc c cs)
  then obtain k where k: "1 \<le> k" "k \<le> 10" "slots cs = 2 ^ k" by blast
  show ?case
  proof (cases "slots cs < maxConcurrent \<and> slots cs = c")
    case True
    then have "(2::int) ^ k < 2 ^ 10" using k by (simp add: maxConcurrent_def)
    then have "k < 10" by (simp only: power_strict_increasing_iff)
    moreover have "slots (cs @ [c]) = 2 ^ (Suc k)"
      using True k by (simp add: slots_snoc resetMaxConcurrent_def)
    ultimately show ?thesis using k by (intro exI[of _ "Suc k"]) simp
  next
    case False
    then have "slots (cs @ [c]) = 2 ^ k"
      using k by (auto simp add: slots_snoc resetMaxConcurrent_def)
    then show ?thesis using k by blast
  qed
qed

lemma slots_le_max: "slots cs \<le> maxConcurrent"
proof -
  obtain k where k: "k \<le> (10::nat)" "slots cs = 2 ^ k" using slots_pow2 by blast
  have "(2::int) ^ k \<le> 2 ^ 10" using k(1) by (intro power_increasing) simp_all
  then show ?thesis using k by (simp add: maxConcurrent_def)
qed

lemma slots_pos: "0 < slots cs"
  using slots_pow2[of cs] by auto

text \<open>
  C7. Along any connection, with \<open>cs\<close> the lengths of the frames handled so far and \<open>c\<close> the
  length of the next one: the slot count is doubled exactly when the frame filled all
  slots and the count is below \<open>maxConcurrent = 1024\<close>, and is left as it is otherwise; it
  never exceeds \<open>maxConcurrent\<close>, before or after; and it never shrinks.
\<close>

theorem slots_double_on_full_capped:
  "slots [] = defaultConcurrent \<and> maxConcurrent = 1024
   \<and> slots (cs @ [c]) = (if slots cs < maxConcurrent \<and> slots cs = c then 2 * slots cs else slots cs)
   \<and> slots cs \<le> maxConcurrent \<and> slots (cs @ [c]) \<le> maxConcurrent
   \<and> slots cs \<le> slots (cs @ [c])"
  using slots_le_max[of cs] slots_le_max[of "cs @ [c]"] slots_pos[of cs]
  by (auto simp: slots_snoc resetMaxConcurrent_def maxConcurrent_def slots_def)

subsection \<open>Merging redis sub-responses\<close>

lemma mergeCount_loop_eq:
  "mergeCount_loop c subs = c + int (length (filter (\<lambda>s. rErr (Resp s) = None) subs))"
  by (induction subs arbitrary: c) (auto split: option.splits)

lemma replace_ok:
  "pos < length a \<Longrightarrow> replace (RespObj t d (Some a)) pos x = Inr (RespObj t d (Some (a[pos := x])))"
  by (simp add: replace_def)

lemma mergeJoin_loop_slots:
  "drop idx a = replicate (length subs) None \<Longrightarrow>
   mergeJoin_loop (RespObj t d (Some a)) idx subs
     = Inr (RespObj t d (Some (take idx a @ map subReply subs)))"
proof (induction subs arbitrary: a idx)
  case Nil
  then show ?case by simp
next
  case (Cons sub subs)
  have "length (drop idx a) = Suc (length subs)" using Cons.prems by simp
  then have i: "idx < length a" by simp
  have "a ! idx = drop idx a ! 0" using i by simp
  then have hd0: "a ! idx = None" using Cons.prems by simp
  have "drop (Suc idx) a = tl (drop idx a)" by (simp add: drop_Suc tl_drop)
  then have tl0: "drop (Suc idx) a = replicate (length subs) None"
    using Cons.prems by simp
  show ?case
  proof (cases "assertRResponse (rProto (Resp sub))")
    case None
    have "mergeJoin_loop (RespObj t d (Some a)) idx (sub # subs)
          = mergeJoin_loop (RespObj t d (Some a)) (Suc idx) subs"
      using None by simp
    also have "\<dots> = Inr (RespObj t d (Some (take (Suc idx) a @ map subReply subs)))"
      by (rule Cons.IH[OF tl0])
    also have "take (Suc idx) a = take idx a @ [None]"
      using i hd0 by (simp add: take_Suc_conv_app_nth)
    finally show ?thesis using None by (simp add: subReply_def)
  next
    case (Some srr)
    have tl1: "drop (Suc idx) (a[idx := respObj srr]) = replicate (length subs) None"
      using tl0 by simp
    have "mergeJoin_loop (RespObj t d (Some a)) idx (sub # subs)
          = mergeJoin_loop (RespObj t d (Some (a[idx := respObj srr]))) (Suc idx) subs"
      using Some i by (simp add: replace_ok)
    also have "\<dots> = Inr (RespObj t d (Some (take (Suc idx) (a[idx := respObj srr]) @ map subReply subs)))"
      by (rule Cons.IH[OF tl1])
    also have "take (Suc idx) (a[idx := respObj srr]) = take idx a @ [respObj srr]"
      using i by (simp add: take_Suc_conv_app_nth)
    finally show ?thesis using Some by (simp add: subReply_def)
  qed
qed


text \<open>
  C1. What the source does where the claim expects the sub-response to be passed through:
  with merge rule basic and a first sub-response that is an \<open>RResponse\<close> (the assertion
  succeeds), \<open>Merge\<close> returns with the parent unchanged, its resp object still nil; and when
  the assertion fails, the assignment that follows dereferences the nil \<open>srr\<close>.
\<close>

theorem merge_basic_returns_without_assigning:
  "Merge (newRResponse MergeTypeBasic) [answered (RespObj respBulk (Some ''v'') None)]
     = Inr (newRResponse MergeTypeBasic)
   \<and> respObj (newRResponse MergeTypeBasic) = None
   \<and> assertRResponse (rProto (Resp (answered (RespObj respBulk (Some ''v'') None))))
       = Some \<lparr>respObj = Some (RespObj respBulk (Some ''v'') None), mergeType = MergeTypeBasic\<rparr>
   \<and> Merge (newRResponse MergeTypeBasic) [\<lparr>Resp = \<lparr>rProto = ForeignProto, rErr = None\<rparr>\<rparr>]
     = Inl NilDereference"
  by (simp add: Merge_def newRResponse_def answered_def assertRResponse_def)

lemma merge_basic_inverted:
  "mergeType rr = MergeTypeBasic \<Longrightarrow>
   Merge rr (sub # rest) =
     (case assertRResponse (rProto (Resp sub)) of Some srr \<Rightarrow> Inr rr | None \<Rightarrow> Inl NilDereference)"
  by (simp add: Merge_def)

text \<open>
  C2, as the code has it. With merge rule count, the merged resp object carries, in
  decimal, the number of sub-requests whose response has no error; the integers the
  backends replied are not read.
\<close>

theorem merge_count_counts_error_free_subs:
  "\<exists>obj. Merge (rr\<lparr>mergeType := MergeTypeCount\<rparr>) subs
           = Inr (rr\<lparr>mergeType := MergeTypeCount, respObj := Some obj\<rparr>)
         \<and> data obj = Some (Itoa (int (length (filter (\<lambda>s. rErr (Resp s) = None) subs))))
         \<and> array obj = None"
proof -
  let ?n = "int (length (filter (\<lambda>s. rErr (Resp s) = None) subs))"
  have "Merge (rr\<lparr>mergeType := MergeTypeCount\<rparr>) subs
        = Inr (rr\<lparr>mergeType := MergeTypeCount, respObj := Some (newRespInt ?n)\<rparr>)"
    by (simp add: Merge_def mergeCount_def mergeCount_loop_eq)
  moreover have "data (newRespInt ?n) = Some (Itoa ?n)" and "array (newRespInt ?n) = None"
    by (simp_all add: newRespInt_def)
  ultimately show ?thesis by blast
qed

text \<open>
  C2 as stated fails: for \<open>DEL k1 k2 k3\<close> with sub-replies \<open>:1\<close>, \<open>:0\<close>, \<open>:1\<close> the merged
  object carries \<open>3\<close>, not the sum \<open>2\<close>.
\<close>

theorem merge_count_del_counterexample:
  "Merge (newRResponse MergeTypeCount)
     [answered (RespObj respInt (Some ''1'') None),
      answered (RespObj respInt (Some ''0'') None),
      answered (RespObj respInt (Some ''1'') None)]
   = Inr \<lparr>respObj = Some (RespObj respArray (Some ''3'') None), mergeType = MergeTypeCount\<rparr>
   \<and> RespObj respArray (Some ''3'') None \<noteq> RespObj respInt (Some ''2'') None
   \<and> Some ''3'' \<noteq> Some ''2''"
  by (simp add: Merge_def mergeCount_def newRespInt_def newRResponse_def answered_def Itoa_def
      respArray_def respInt_def)

text \<open>
  C8. A response made by \<open>newRResponse\<close> for a split command (its resp object is nil) with
  merge rule join, merged over any \<open>n\<close> sub-requests: the result is a RESP array of length
  \<open>n\<close> whose \<open>i\<close>-th element is the reply of the \<open>i\<close>-th sub-request, in the order of the
  sub-requests.  A sub-request whose response is not a redis response leaves its own
  element nil and moves no other reply: every reply stays at the position of its key.
\<close>

theorem merge_join_in_key_order:
  assumes "respObj rr = None" and "mergeType rr = MergeTypeJoin"
  shows "Merge rr subs = Inr (rr\<lparr>respObj := Some (RespObj respArray None (Some (map subReply subs)))\<rparr>)
         \<and> length (map subReply subs) = length subs
         \<and> (\<forall>i<length subs. \<forall>srr. rProto (Resp (subs ! i)) = RedisProto srr
               \<longrightarrow> map subReply subs ! i = respObj srr)
         \<and> (\<forall>i<length subs. assertRResponse (rProto (Resp (subs ! i))) = None
               \<longrightarrow> map subReply subs ! i = None)"
proof -
  have "mergeJoin_loop (RespObj respArray None (Some (replicate (length subs) None))) 0 subs
        = Inr (RespObj respArray None (Some (take 0 (replicate (length subs) None) @ map subReply subs)))"
    by (rule mergeJoin_loop_slots) simp
  then have "mergeJoin rr subs = Inr (rr\<lparr>respObj := Some (RespObj respArray None (Some (map subReply subs)))\<rparr>)"
    using assms(1) by (simp add: mergeJoin_def newRespArrayWithCapcity_def isNull_def)
  then have 1: "Merge rr subs = Inr (rr\<lparr>respObj := Some (RespObj respArray None (Some (map subReply subs)))\<rparr>)"
    using assms(2) by (simp add: Merge_def)
  have 2: "\<forall>i<length subs. \<forall>srr. rProto (Resp (subs ! i)) = RedisProto srr
               \<longrightarrow> map subReply subs ! i = respObj srr"
    by (simp add: subReply_def assertRResponse_def)
  have 3: "\<forall>i<length subs. assertRResponse (rProto (Resp (subs ! i))) = None
               \<longrightarrow> map subReply subs ! i = None"
    by (simp add: subReply_def)
  show ?thesis using 1 2 3 by simp
qed

theorem merge_join_in_key_order_witness:
  "Merge (newRResponse MergeTypeJoin)
     [answered (RespObj respBulk (Some ''va'') None),
      \<lparr>Resp = \<lparr>rProto = ForeignProto, rErr = None\<rparr>\<rparr>,
      answered (RespObj respBulk None None),
      answered (RespObj respBulk (Some ''vd'') None)]
   = Inr \<lparr>respObj = Some (RespObj respArray None
             (Some [Some (RespObj respBulk (Some ''va'') None),
                    None,
                    Some (RespObj respBulk None None),
                    Some (RespObj respBulk (Some ''vd'') None)])),
          mergeType = MergeTypeJoin\<rparr>
   \<and> map subReply
         [answered (RespObj respBulk (Some ''va'') None),
          \<lparr>Resp = \<lparr>rProto = ForeignProto, rErr = None\<rparr>\<rparr>,
          answered (RespObj respBulk None None),
          answered (RespObj respBulk (Some ''vd'') None)] ! 1 = None
   \<and> map subReply
         [answered (RespObj respBulk (Some ''va'') None),
          \<lparr>Resp = \<lparr>rProto = ForeignProto, rErr = None\<rparr>\<rparr>,
          answered (RespObj respBulk None None),
          answered (RespObj respBulk (Some ''vd'') None)] ! 3
       = Some (RespObj respBulk (Some ''vd'') None)"
proof -
  let ?subs = "[answered (RespObj respBulk (Some ''va'') None),
      \<lparr>Resp = \<lparr>rProto = ForeignProto, rErr = None\<rparr>\<rparr>,
      answered (RespObj respBulk None None),
      answered (RespObj respBulk (Some ''vd'') None)]"
  have 1: "respObj (newRResponse MergeTypeJoin) = None" by (simp add: newRResponse_def)
  have 2: "mergeType (newRResponse MergeTypeJoin) = MergeTypeJoin" by (simp add: newRResponse_def)
  note t = merge_join_in_key_order[OF 1 2, of ?subs]
  from t have "Merge (newRResponse MergeTypeJoin) ?subs
     = Inr ((newRResponse MergeTypeJoin)\<lparr>respObj := Some (RespObj respArray None (Some (map subReply ?subs)))\<rparr>)"
    by (rule conjunct1)
  then have m: "Merge (newRResponse MergeTypeJoin) ?subs
     = Inr \<lparr>respObj = Some (RespObj respArray None
             (Some [Some (RespObj respBulk (Some ''va'') None),
                    None,
                    Some (RespObj respBulk None None),
                    Some (RespObj respBulk (Some ''vd'') None)])),
          mergeType = MergeTypeJoin\<rparr>"
    by (simp add: newRResponse_def subReply_def answered_def assertRResponse_def)
  from t have "\<forall>i<length ?subs. assertRResponse (rProto (Resp (?subs ! i))) = None
               \<longrightarrow> map subReply ?subs ! i = None"
    by (rule conjunct2[OF conjunct2[OF conjunct2]])
  then have "1 < length ?subs \<longrightarrow> assertRResponse (rProto (Resp (?subs ! 1))) = None
               \<longrightarrow> map subReply ?subs ! 1 = None"
    by (rule spec)
  then have f: "map subReply ?subs ! 1 = None"
    by (simp add: assertRResponse_def)
  from t have "\<forall>i<length ?subs. \<forall>srr. rProto (Resp (?subs ! i)) = RedisProto srr
               \<longrightarrow> map subReply ?subs ! i = respObj srr"
    by (rule conjunct1[OF conjunct2[OF conjunct2]])
  then have "3 < length ?subs \<longrightarrow> (\<forall>srr. rProto (Resp (?subs ! 3)) = RedisProto srr
               \<longrightarrow> map subReply ?subs ! 3 = respObj srr)"
    by (rule spec)
  then have "\<forall>srr. rProto (Resp (?subs ! 3)) = RedisProto srr
               \<longrightarrow> map subReply ?subs ! 3 = respObj srr"
    by simp
  then have "rProto (Resp (?subs ! 3))
                 = RedisProto \<lparr>respObj = Some (RespObj respBulk (Some ''vd'') None), mergeType = MergeTypeBasic\<rparr>
               \<longrightarrow> map subReply ?subs ! 3 = respObj \<lparr>respObj = Some (RespObj respBulk (Some ''vd'') None), mergeType = MergeTypeBasic\<rparr>"
    by (rule spec)
  then have g: "map subReply ?subs ! 3 = Some (RespObj respBulk (Some ''vd'') None)"
    by (simp add: answered_def)
  show ?thesis by (intro conjI m f g)
qed

subsection \<open>The redis node connection: WriteBatch\<close>

lemma toEncode_Cons:
  "toEncode isS isC (m # ms) = toEncode isS isC [m] @ toEncode isS isC ms"
  by (simp add: toEncode_def)

lemma toEncode_Nil: "toEncode isS isC [] = []"
  by (simp add: toEncode_def)

lemma encodeSeq_append:
  "encodeSeq enc w (xs @ ys) = encodeSeq enc (encodeSeq enc w xs) ys"
  by (simp add: encodeSeq_def)

lemma encodeSeq_Cons_msg:
  "encodeSeq enc w (toEncode isS isC (m # ms)) = encodeSeq enc (encodeSeq enc w (toEncode isS isC [m])) (toEncode isS isC ms)"
  using toEncode_Cons[of isS isC m ms] by (simp add: encodeSeq_append)

lemma loop_outcome_step:
  assumes p: "passes isS isC enc w m"
    and w1: "w1 = encodeSeq enc w (toEncode isS isC [m])"
    and rest: "loop_outcome isS isC enc w1 ms ms' w' r"
  shows "loop_outcome isS isC enc w (m # ms) (Some (passed isS isC m) # ms') w' r"
proof -
  have shift: "encodeSeq enc w (toEncode isS isC (take (Suc j) (m # ms)))
               = encodeSeq enc w1 (toEncode isS isC (take j ms))" for j
    using encodeSeq_Cons_msg[of enc w isS isC m "take j ms"] w1 by simp
  have allp: "\<forall>j<Suc n. passes isS isC enc (encodeSeq enc w (toEncode isS isC (take j (m # ms)))) ((m # ms) ! j)"
    if "\<forall>j<n. passes isS isC enc (encodeSeq enc w1 (toEncode isS isC (take j ms))) (ms ! j)" for n
  proof (intro allI impI)
    fix j assume "j < Suc n"
    show "passes isS isC enc (encodeSeq enc w (toEncode isS isC (take j (m # ms)))) ((m # ms) ! j)"
    proof (cases j)
      case 0
      then show ?thesis using p by (simp add: toEncode_Nil encodeSeq_def)
    next
      case (Suc j')
      then have "j' < n" using \<open>j < Suc n\<close> by simp
      then show ?thesis using that Suc shift[of j'] by simp
    qed
  qed
  from rest show ?thesis
    unfolding loop_outcome_def
  proof (elim disjE exE conjE)
    assume a: "r = Inr None" "ms' = map (\<lambda>m. Some (passed isS isC m)) ms"
      "w' = encodeSeq enc w1 (toEncode isS isC ms)"
      "\<forall>j<length ms. passes isS isC enc (encodeSeq enc w1 (toEncode isS isC (take j ms))) (ms ! j)"
    have "w' = encodeSeq enc w (toEncode isS isC (m # ms))"
      using a(3) w1 encodeSeq_Cons_msg[of enc w isS isC m ms] by simp
    moreover have "\<forall>j<length (m # ms). passes isS isC enc (encodeSeq enc w (toEncode isS isC (take j (m # ms)))) ((m # ms) ! j)"
      using allp[OF a(4)] by simp
    ultimately show "(r = Inr None
      \<and> Some (passed isS isC m) # ms' = map (\<lambda>m. Some (passed isS isC m)) (m # ms)
      \<and> w' = encodeSeq enc w (toEncode isS isC (m # ms))
      \<and> (\<forall>j<length (m # ms). passes isS isC enc (encodeSeq enc w (toEncode isS isC (take j (m # ms)))) ((m # ms) ! j)))
    \<or> (\<exists>k e. k < length (m # ms) \<and> r = Inr (Some e)
          \<and> offends isS isC enc (encodeSeq enc w (toEncode isS isC (take k (m # ms)))) ((m # ms) ! k) e
          \<and> (\<forall>j<k. passes isS isC enc (encodeSeq enc w (toEncode isS isC (take j (m # ms)))) ((m # ms) ! j))
          \<and> Some (passed isS isC m) # ms' = map (\<lambda>m. Some (passed isS isC m)) (take k (m # ms))
                    @ Some (DoneWithError ((m # ms) ! k) e) # map Some (drop (Suc k) (m # ms))
          \<and> w' = encodeSeq enc w (toEncode isS isC (take (Suc k) (m # ms))))"
      using a(1,2) by simp
  next
    fix k e
    assume b: "k < length ms" "r = Inr (Some e)"
      "offends isS isC enc (encodeSeq enc w1 (toEncode isS isC (take k ms))) (ms ! k) e"
      "\<forall>j<k. passes isS isC enc (encodeSeq enc w1 (toEncode isS isC (take j ms))) (ms ! j)"
      "ms' = map (\<lambda>m. Some (passed isS isC m)) (take k ms) @ Some (DoneWithError (ms ! k) e) # map Some (drop (Suc k) ms)"
      "w' = encodeSeq enc w1 (toEncode isS isC (take (Suc k) ms))"
    have 1: "Suc k < length (m # ms)" using b(1) by simp
    have 2: "offends isS isC enc (encodeSeq enc w (toEncode isS isC (take (Suc k) (m # ms)))) ((m # ms) ! Suc k) e"
      using b(3) shift[of k] by simp
    have 3: "\<forall>j<Suc k. passes isS isC enc (encodeSeq enc w (toEncode isS isC (take j (m # ms)))) ((m # ms) ! j)"
      using allp[OF b(4)] .
    have 4: "Some (passed isS isC m) # ms' = map (\<lambda>m. Some (passed isS isC m)) (take (Suc k) (m # ms))
                    @ Some (DoneWithError ((m # ms) ! Suc k) e) # map Some (drop (Suc (Suc k)) (m # ms))"
      using b(5) by simp
    have 5: "w' = encodeSeq enc w (toEncode isS isC (take (Suc (Suc k)) (m # ms)))"
      using b(6) shift[of "Suc k"] by simp
    show "(r = Inr None
      \<and> Some (passed isS isC m) # ms' = map (\<lambda>m. Some (passed isS isC m)) (m # ms)
      \<and> w' = encodeSeq enc w (toEncode isS isC (m # ms))
      \<and> (\<forall>j<length (m # ms). passes isS isC enc (encodeSeq enc w (toEncode isS isC (take j (m # ms)))) ((m # ms) ! j)))
    \<or> (\<exists>k e. k < length (m # ms) \<and> r = Inr (Some e)
          \<and> offends isS isC enc (encodeSeq enc w (toEncode isS isC (take k (m # ms)))) ((m # ms) ! k) e
          \<and> (\<forall>j<k. passes isS isC enc (encodeSeq enc w (toEncode isS isC (take j (m # ms)))) ((m # ms) ! j))
          \<and> Some (passed isS isC m) # ms' = map (\<lambda>m. Some (passed isS isC m)) (take k (m # ms))
                    @ Some (DoneWithError ((m # ms) ! k) e) # map Some (drop (Suc k) (m # ms))
          \<and> w' = encodeSeq enc w (toEncode isS isC (take (Suc k) (m # ms))))"
      using 1 2 3 4 5 b(2) by blast
  qed
qed

lemma loop_outcome_offend:
  assumes "offends isS isC enc w m e" "w' = encodeSeq enc w (toEncode isS isC [m])"
  shows "loop_outcome isS isC enc w (m # ms) (Some (DoneWithError m e) # map Some ms) w' (Inr (Some e))"
  unfolding loop_outcome_def
  apply (rule disjI2)
  apply (rule exI[of _ 0], rule exI[of _ e])
  using assms by (simp add: toEncode_Nil encodeSeq_def)

lemma WriteBatch_loop_outcome:
  "WriteBatch_loop isS isC enc w (map Some ms) = (ms', w', r) \<Longrightarrow> loop_outcome isS isC enc w ms ms' w' r"
proof (induction ms arbitrary: w ms' w' r)
  case Nil
  then show ?case by (auto simp: loop_outcome_def toEncode_Nil encodeSeq_def)
next
  case (Cons m ms)
  show ?case
  proof (cases "assertRequest (request m)")
    case None
    then have o: "offends isS isC enc w m ErrBadAssert" by (simp add: offends_def)
    have e: "w = encodeSeq enc w (toEncode isS isC [m])"
      using None by (simp add: toEncode_def encodeSeq_def)
    from Cons.prems None have "ms' = Some (DoneWithError m ErrBadAssert) # map Some ms" "w' = w" "r = Inr (Some ErrBadAssert)"
      by simp_all
    then show ?thesis using loop_outcome_offend[OF o e, of ms] by simp
  next
    case (Some q)
    show ?thesis
    proof (cases "skipped isS isC q")
      case True
      obtain ms1 w1 r1 where l: "WriteBatch_loop isS isC enc w (map Some ms) = (ms1, w1, r1)"
        by (metis prod_cases3)
      from Cons.prems Some True l have eq: "ms' = Some m # ms1" "w' = w1" "r = r1" by simp_all
      have p: "passes isS isC enc w m" using Some True by (simp add: passes_def)
      have pm: "passed isS isC m = m" using Some True by (simp add: passed_def)
      have e: "w = encodeSeq enc w (toEncode isS isC [m])"
        using Some True by (simp add: toEncode_def encodeSeq_def)
      from loop_outcome_step[OF p e Cons.IH[OF l]] show ?thesis using eq pm by simp
    next
      case False
      obtain e1 wa where en: "enc (resp q) w = (e1, wa)" by (cases "enc (resp q) w")
      have e: "wa = encodeSeq enc w (toEncode isS isC [m])"
        using Some False en by (simp add: toEncode_def encodeSeq_def)
      show ?thesis
      proof (cases e1)
        case None
        obtain ms1 w1 r1 where l: "WriteBatch_loop isS isC enc wa (map Some ms) = (ms1, w1, r1)"
          by (metis prod_cases3)
        from Cons.prems Some False en None l have eq: "ms' = Some (MarkWrite m) # ms1" "w' = w1" "r = r1"
          by simp_all
        have p: "passes isS isC enc w m" using Some False en None by (simp add: passes_def)
        have pm: "passed isS isC m = MarkWrite m" using Some False by (simp add: passed_def)
        from loop_outcome_step[OF p e Cons.IH[OF l]] show ?thesis using eq pm by simp
      next
        case (Some err)
        have o: "offends isS isC enc w m err"
          using \<open>assertRequest (request m) = Some q\<close> False en Some by (simp add: offends_def)
        from Cons.prems \<open>assertRequest (request m) = Some q\<close> False en Some
        have "ms' = Some (DoneWithError m err) # map Some ms" "w' = wa" "r = Inr (Some err)"
          by simp_all
        then show ?thesis using loop_outcome_offend[OF o e, of ms] by simp
      qed
    qed
  qed
qed

lemma Msgs_update:
  assumes "Msgs mb = Inr ptrs" "length ptrs' = length ptrs"
  shows "Msgs (mb\<lparr>msgs := ptrs' @ drop (length ptrs') (msgs mb)\<rparr>) = Inr ptrs'"
proof -
  from assms(1) have c: "count mb \<le> length (msgs mb)"
    and p: "ptrs = take (count mb) (msgs mb)"
    by (auto simp: Msgs_def split: if_splits)
  have l: "length ptrs' = count mb" using assms(2) p c by simp
  then show ?thesis using c by (simp add: Msgs_def)
qed

lemma loop_outcome_length:
  "loop_outcome isS isC enc w ms ms' w' r \<Longrightarrow> length ms' = length ms"
  by (auto simp: loop_outcome_def)

text \<open>
  C5. For a batch whose messages are \<open>ms\<close>, \<open>WriteBatch\<close> ends in one of two ways.  Either
  it ran through all messages in batch order: every skipped message (unsupported or
  control) is unchanged and was not encoded, every other message was encoded, in batch
  order, and is marked written, and the result is that of \<open>Flush\<close>.  Or it stopped at the
  first message \<open>k\<close> whose assertion or encoding failed with \<open>e\<close>: the messages before \<open>k\<close>
  are as in the first case, message \<open>k\<close> is done with error \<open>e\<close>, the messages after \<open>k\<close> are
  untouched and not encoded, and \<open>e\<close> is returned.
\<close>

theorem WriteBatch_order_skip_mark_stop:
  assumes "Msgs mb = Inr (map Some ms)"
    and "WriteBatch isS isC enc wt nc mb = (mb', nc', r)"
  shows "(\<exists>e. r = Inr e
            \<and> Msgs mb' = Inr (map (\<lambda>m. Some (passed isS isC m)) ms)
            \<and> Flush wt (encodeSeq enc (bw nc) (toEncode isS isC ms)) = (e, bw nc')
            \<and> (\<forall>j<length ms.
                  passes isS isC enc (encodeSeq enc (bw nc) (toEncode isS isC (take j ms))) (ms ! j)))
         \<or> (\<exists>k e. k < length ms \<and> r = Inr (Some e)
            \<and> offends isS isC enc (encodeSeq enc (bw nc) (toEncode isS isC (take k ms))) (ms ! k) e
            \<and> (\<forall>j<k. passes isS isC enc (encodeSeq enc (bw nc) (toEncode isS isC (take j ms))) (ms ! j))
            \<and> Msgs mb' = Inr (map (\<lambda>m. Some (passed isS isC m)) (take k ms)
                               @ Some (DoneWithError (ms ! k) e) # map Some (drop (Suc k) ms))
            \<and> bw nc' = encodeSeq enc (bw nc) (toEncode isS isC (take (Suc k) ms)))"
proof -
  obtain ms1 w1 r1 where l: "WriteBatch_loop isS isC enc (bw nc) (map Some ms) = (ms1, w1, r1)"
    by (metis prod_cases3)
  note sp = WriteBatch_loop_outcome[OF l]
  have len: "length ms1 = length (map Some ms)" using loop_outcome_length[OF sp] by simp
  have m1: "Msgs (mb\<lparr>msgs := ms1 @ drop (length ms1) (msgs mb)\<rparr>) = Inr ms1"
    by (rule Msgs_update[OF assms(1) len])
  from sp show ?thesis
    unfolding loop_outcome_def
  proof (elim disjE exE conjE)
    assume a: "r1 = Inr None" "ms1 = map (\<lambda>m. Some (passed isS isC m)) ms"
      "w1 = encodeSeq enc (bw nc) (toEncode isS isC ms)"
      "\<forall>j<length ms. passes isS isC enc (encodeSeq enc (bw nc) (toEncode isS isC (take j ms))) (ms ! j)"
    obtain e w2 where f: "Flush wt w1 = (e, w2)" by (cases "Flush wt w1")
    from assms(2) l a(1) f have "mb' = mb\<lparr>msgs := ms1 @ drop (length ms1) (msgs mb)\<rparr>"
      "nc' = nc\<lparr>bw := w2\<rparr>" "r = Inr e"
      by (simp_all add: WriteBatch_def assms(1) Let_def)
    then have "r = Inr e \<and> Msgs mb' = Inr (map (\<lambda>m. Some (passed isS isC m)) ms)
            \<and> Flush wt (encodeSeq enc (bw nc) (toEncode isS isC ms)) = (e, bw nc')"
      using m1 a(2,3) f by simp
    then show ?thesis using a(4) by blast
  next
    fix k e
    assume b: "k < length ms" "r1 = Inr (Some e)"
      "offends isS isC enc (encodeSeq enc (bw nc) (toEncode isS isC (take k ms))) (ms ! k) e"
      "\<forall>j<k. passes isS isC enc (encodeSeq enc (bw nc) (toEncode isS isC (take j ms))) (ms ! j)"
      "ms1 = map (\<lambda>m. Some (passed isS isC m)) (take k ms) @ Some (DoneWithError (ms ! k) e) # map Some (drop (Suc k) ms)"
      "w1 = encodeSeq enc (bw nc) (toEncode isS isC (take (Suc k) ms))"
    from assms(2) l b(2) have "mb' = mb\<lparr>msgs := ms1 @ drop (length ms1) (msgs mb)\<rparr>"
      "nc' = nc\<lparr>bw := w1\<rparr>" "r = Inr (Some e)"
      by (simp_all add: WriteBatch_def assms(1) Let_def)
    then have "r = Inr (Some e) \<and> Msgs mb' = Inr (map (\<lambda>m. Some (passed isS isC m)) (take k ms)
                               @ Some (DoneWithError (ms ! k) e) # map Some (drop (Suc k) ms))
            \<and> bw nc' = encodeSeq enc (bw nc) (toEncode isS isC (take (Suc k) ms))"
      using m1 b(5,6) by simp
    then show ?thesis using b(1,3,4) by blast
  qed
qed



theorem WriteBatch_order_skip_mark_stop_witness:
  "Msgs (batch_of write_msgs) = Inr (map Some write_msgs)
   \<and> WriteBatch isSupport_text isCtl_text encode_text sink_append (newNodeConn [] []) (batch_of write_msgs)
       = (batch_of [MarkWrite (cmd ''GET a''), cmd ''PING'',
                    DoneWithError (msg ForeignRequest) ErrBadAssert, cmd ''GET c''],
          (newNodeConn [] [])\<lparr>bw := \<lparr>wr = [], bufs = [''GET a''], err = None\<rparr>\<rparr>,
          Inr (Some ErrBadAssert))
   \<and> ((\<exists>e. (Inr (Some ErrBadAssert) :: panic + error option) = Inr e
            \<and> Msgs (batch_of [MarkWrite (cmd ''GET a''), cmd ''PING'',
                    DoneWithError (msg ForeignRequest) ErrBadAssert, cmd ''GET c''])
                = Inr (map (\<lambda>m. Some (passed isSupport_text isCtl_text m)) write_msgs)
            \<and> Flush sink_append (encodeSeq encode_text (bw (newNodeConn [] []))
                  (toEncode isSupport_text isCtl_text write_msgs))
                = (e, bw ((newNodeConn [] [])\<lparr>bw := \<lparr>wr = [], bufs = [''GET a''], err = None\<rparr>\<rparr>))
            \<and> (\<forall>j<length write_msgs.
                  passes isSupport_text isCtl_text encode_text
                    (encodeSeq encode_text (bw (newNodeConn [] []))
                       (toEncode isSupport_text isCtl_text (take j write_msgs))) (write_msgs ! j)))
         \<or> (\<exists>k e. k < length write_msgs \<and> (Inr (Some ErrBadAssert) :: panic + error option) = Inr (Some e)
            \<and> offends isSupport_text isCtl_text encode_text
                 (encodeSeq encode_text (bw (newNodeConn [] []))
                    (toEncode isSupport_text isCtl_text (take k write_msgs))) (write_msgs ! k) e
            \<and> (\<forall>j<k. passes isSupport_text isCtl_text encode_text
                    (encodeSeq encode_text (bw (newNodeConn [] []))
                       (toEncode isSupport_text isCtl_text (take j write_msgs))) (write_msgs ! j))
            \<and> Msgs (batch_of [MarkWrite (cmd ''GET a''), cmd ''PING'',
                    DoneWithError (msg ForeignRequest) ErrBadAssert, cmd ''GET c''])
                = Inr (map (\<lambda>m. Some (passed isSupport_text isCtl_text m)) (take k write_msgs)
                               @ Some (DoneWithError (write_msgs ! k) e) # map Some (drop (Suc k) write_msgs))
            \<and> bw ((newNodeConn [] [])\<lparr>bw := \<lparr>wr = [], bufs = [''GET a''], err = None\<rparr>\<rparr>)
                = encodeSeq encode_text (bw (newNodeConn [] []))
                    (toEncode isSupport_text isCtl_text (take (Suc k) write_msgs))))"
proof -
  have h1: "Msgs (batch_of write_msgs) = Inr (map Some write_msgs)"
    by (simp add: Msgs_def batch_of_def)
  have h2: "WriteBatch isSupport_text isCtl_text encode_text sink_append (newNodeConn [] []) (batch_of write_msgs)
       = (batch_of [MarkWrite (cmd ''GET a''), cmd ''PING'',
                    DoneWithError (msg ForeignRequest) ErrBadAssert, cmd ''GET c''],
          (newNodeConn [] [])\<lparr>bw := \<lparr>wr = [], bufs = [''GET a''], err = None\<rparr>\<rparr>,
          Inr (Some ErrBadAssert))"
    by (simp add: write_msgs_def WriteBatch_def Msgs_def batch_of_def cmd_def msg_def assertRequest_def
        skipped_def isSupport_text_def isCtl_text_def encode_text_def Write_def newNodeConn_def
        NewWriter_def MarkWrite_def DoneWithError_def)
  note t = WriteBatch_order_skip_mark_stop [OF h1 h2]
  show ?thesis by (intro conjI h1 h2 t)
qed

subsection \<open>The redis node connection: ReadBatch\<close>

lemma loop_done:
  "\<not> i < Count mb \<Longrightarrow>
   ReadBatch_loop isS isC dec begin now i mb rd
     = \<lparr>batch = mb, reader = rd, result = Inr None, attempts = []\<rparr>"
  by (subst ReadBatch_loop.simps) simp

lemma loop_skip:
  "i < Count mb \<Longrightarrow> Nth mb i = Inr (Some m) \<Longrightarrow> assertRequest (request m) = Some req \<Longrightarrow>
   skipped isS isC req \<Longrightarrow>
   ReadBatch_loop isS isC dec begin now i mb rd = ReadBatch_loop isS isC dec begin now (i + 1) mb rd"
  by (subst ReadBatch_loop.simps) simp

lemma loop_stuck:
  "i < Count mb \<Longrightarrow> \<not> (\<exists>m req. Nth mb i = Inr (Some m) \<and> assertRequest (request m) = Some req) \<Longrightarrow>
   attempts (ReadBatch_loop isS isC dec begin now i mb rd) = []
   \<and> result (ReadBatch_loop isS isC dec begin now i mb rd) \<noteq> Inr None
   \<and> batch (ReadBatch_loop isS isC dec begin now i mb rd) = mb"
proof -
  assume lt: "i < Count mb"
    and st: "\<not> (\<exists>m req. Nth mb i = Inr (Some m) \<and> assertRequest (request m) = Some req)"
  define L where "L = ReadBatch_loop isS isC dec begin now i mb rd"
  have "attempts L = [] \<and> result L \<noteq> Inr None \<and> batch L = mb"
    unfolding L_def using lt st
    by (subst ReadBatch_loop.simps, subst (2) ReadBatch_loop.simps, subst (3) ReadBatch_loop.simps)
       (auto split: sum.splits option.splits if_splits)
  then show ?thesis unfolding L_def .
qed

lemma loop_decode:
  assumes "i < Count mb" "Nth mb i = Inr (Some m)" "assertRequest (request m) = Some req"
    "\<not> skipped isS isC req" "dec (reply req) (bytes (rb rd)) (rpos (rb rd)) = (e, reply', p')"
  shows "ReadBatch_loop isS isC dec begin now i mb rd =
     (let a = \<lparr>aidx = i, abytes = bytes (rb rd), apos = rpos (rb rd), ain = reply req,
               aerr = e, aout = reply', aend = p'\<rparr>;
          rd1 = AdvanceTo rd p';
          mb1 = mb\<lparr>msgs := (msgs mb)[nat i := Some (m\<lparr>request := OwnRequest (req\<lparr>reply := reply'\<rparr>)\<rparr>)]\<rparr>
      in if e = Some ErrBufferFull then
           (case Reader_Read (AdvanceTo rd1 begin) of
              (Some e2, rd2) \<Rightarrow> \<lparr>batch = mb1, reader = rd2, result = Inr (Some e2), attempts = [a]\<rparr>
            | (None, rd2) \<Rightarrow>
                (let s = ReadBatch_loop isS isC dec begin now i mb1 (AdvanceTo rd2 now)
                 in s\<lparr>attempts := a # attempts s\<rparr>))
         else if e \<noteq> None then \<lparr>batch = mb1, reader = rd1, result = Inr e, attempts = [a]\<rparr>
         else
           (let mb2 = mb\<lparr>msgs := (msgs mb)[nat i :=
                          Some (MarkRead (m\<lparr>request := OwnRequest (req\<lparr>reply := reply'\<rparr>)\<rparr>))]\<rparr>;
                s = ReadBatch_loop isS isC dec begin (Mark rd1) (i + 1) mb2 rd1
            in s\<lparr>attempts := a # attempts s\<rparr>))"
  using assms by (subst ReadBatch_loop.simps) simp

lemma Nth_Some_range: "i < Count mb \<Longrightarrow> Nth mb i = Inr (Some m) \<Longrightarrow> 0 \<le> i \<and> nat i < length (msgs mb)"
  by (auto simp: Nth_def Count_def split: if_splits)

lemma Count_upd: "Count (mb\<lparr>msgs := xs\<rparr>) = Count mb"
  by (simp add: Count_def)

lemma Nth_upd_same:
  "i < Count mb \<Longrightarrow> Nth mb i = Inr (Some m) \<Longrightarrow> Nth (mb\<lparr>msgs := (msgs mb)[nat i := x]\<rparr>) i = Inr x"
  by (auto simp: Nth_def Count_def split: if_splits)

lemma Nth_upd_other:
  "j \<noteq> i \<Longrightarrow> 0 \<le> i \<Longrightarrow> Nth (mb\<lparr>msgs := (msgs mb)[nat i := x]\<rparr>) j = Nth mb j"
  by (auto simp: Nth_def)

lemma skipped_reply: "skipped isS isC (req\<lparr>reply := x\<rparr>) = skipped isS isC req"
  by (simp add: skipped_def)

lemma decodable_upd:
  assumes "i < Count mb" "Nth mb i = Inr (Some m)" "assertRequest (request m) = Some req"
    and "request m' = OwnRequest (req\<lparr>reply := x\<rparr>)"
  shows "decodable isS isC (mb\<lparr>msgs := (msgs mb)[nat i := Some m']\<rparr>) j = decodable isS isC mb j"
proof (cases "j = i")
  case True
  have "Nth (mb\<lparr>msgs := (msgs mb)[nat i := Some m']\<rparr>) i = Inr (Some m')"
    by (rule Nth_upd_same[OF assms(1,2)])
  then show ?thesis using True assms
    by (simp add: decodable_def Count_upd assertRequest_def skipped_reply)
next
  case False
  have "0 \<le> i" using Nth_Some_range[OF assms(1,2)] by simp
  then show ?thesis using False by (simp add: decodable_def Count_upd Nth_upd_other)
qed

lemma pending_upd:
  assumes "i < Count mb" "Nth mb i = Inr (Some m)" "assertRequest (request m) = Some req"
    and "request m' = OwnRequest (req\<lparr>reply := x\<rparr>)"
  shows "pending isS isC (mb\<lparr>msgs := (msgs mb)[nat i := Some m']\<rparr>) j = pending isS isC mb j"
  unfolding pending_def using decodable_upd[OF assms] by (simp add: Count_upd cong: filter_cong)

lemma pending_step:
  "i < Count mb \<Longrightarrow> 0 \<le> i \<Longrightarrow>
   pending isS isC mb i = (if decodable isS isC mb i then i # pending isS isC mb (i + 1) else pending isS isC mb (i + 1))"
  unfolding pending_def by (subst upto_rec1) auto

lemma pending_done: "\<not> i < Count mb \<Longrightarrow> pending isS isC mb i = []"
  unfolding pending_def by simp

lemma replyAt_upd:
  assumes "i < Count mb" "Nth mb i = Inr (Some m)"
    and "request m' = OwnRequest (req\<lparr>reply := x\<rparr>)"
  shows "replyAt (mb\<lparr>msgs := (msgs mb)[nat i := Some m']\<rparr>) = (replyAt mb)(i \<mapsto> x)"
proof
  fix j
  show "replyAt (mb\<lparr>msgs := (msgs mb)[nat i := Some m']\<rparr>) j = ((replyAt mb)(i \<mapsto> x)) j"
  proof (cases "j = i")
    case True
    have "Nth (mb\<lparr>msgs := (msgs mb)[nat i := Some m']\<rparr>) i = Inr (Some m')"
      by (rule Nth_upd_same[OF assms(1,2)])
    then show ?thesis using True assms(3) by (simp add: replyAt_def assertRequest_def)
  next
    case False
    have "0 \<le> i" using Nth_Some_range[OF assms(1,2)] by simp
    then show ?thesis using False by (simp add: replyAt_def Nth_upd_other)
  qed
qed

lemma replyAt_Some:
  "Nth mb i = Inr (Some m) \<Longrightarrow> assertRequest (request m) = Some req \<Longrightarrow> replyAt mb i = Some (reply req)"
  by (simp add: replyAt_def)

lemma allRequests_upd:
  assumes "i < Count mb" "Nth mb i = Inr (Some m)" "assertRequest (request m) = Some req"
    and "request m' = OwnRequest (req\<lparr>reply := x\<rparr>)"
  shows "allRequests (mb\<lparr>msgs := (msgs mb)[nat i := Some m']\<rparr>) = allRequests mb"
proof -
  have "replyAt mb i \<noteq> None" using replyAt_Some[OF assms(2,3)] by simp
  then have "\<And>k. (((replyAt mb)(i \<mapsto> x)) k \<noteq> None) = (replyAt mb k \<noteq> None)" by simp
  then show ?thesis
    unfolding allRequests_def replyAt_upd[OF assms(1,2,4)] Count_upd by simp
qed

lemma allRequests_stuck:
  assumes "i < Count mb" "0 \<le> i"
    and "\<not> (\<exists>m req. Nth mb i = Inr (Some m) \<and> assertRequest (request m) = Some req)"
  shows "\<not> allRequests mb"
proof -
  have "replyAt mb i = None" using assms(3)
    by (auto simp: replyAt_def split: sum.splits option.splits)
  moreover have "i \<in> set [0..Count mb - 1]" using assms(1,2) by simp
  ultimately show ?thesis unfolding allRequests_def list_all_iff by blast
qed

lemma trace_ok_weaken:
  "trace_ok dec b0 allreq res rep b j pend now bs sk tr \<Longrightarrow> i \<le> j \<Longrightarrow>
   trace_ok dec b0 allreq res rep False i pend now bs sk tr"
  by (cases tr) (auto split: if_splits)

lemma AdvanceTo_twice:
  "AdvanceTo (AdvanceTo rd p) b0 = \<lparr>rb = \<lparr>bytes = bytes (rb rd), rpos = b0\<rparr>, src = src rd\<rparr>"
  by (simp add: AdvanceTo_def)

lemma loop_trace_ok:
  "rpos (rb rd) = now \<Longrightarrow> 0 \<le> i \<Longrightarrow>
   trace_ok dec b0 (allRequests mb) (result (ReadBatch_loop isS isC dec b0 now i mb rd)) (replyAt mb)
     (decodable isS isC mb i) i (pending isS isC mb i) now (bytes (rb rd)) (src rd)
     (attempts (ReadBatch_loop isS isC dec b0 now i mb rd))"
proof (induction isS isC dec b0 now i mb rd rule: ReadBatch_loop.induct)
  case (1 isS isC dec b0 now i mb rd)
  let ?L = "ReadBatch_loop isS isC dec b0 now i mb rd"
  note i0 = "1.prems"(2)
  show ?case
  proof (cases "i < Count mb")
    case False
    then have "\<not> decodable isS isC mb i" by (simp add: decodable_def)
    then show ?thesis using False by (simp add: loop_done pending_done)
  next
    case lt: True
    show ?thesis
    proof (cases "\<exists>m req. Nth mb i = Inr (Some m) \<and> assertRequest (request m) = Some req")
      case False
      then have nd: "\<not> decodable isS isC mb i"
        by (auto simp: decodable_def split: sum.splits option.splits)
      have st: "attempts ?L = []" "result ?L \<noteq> Inr None"
        using loop_stuck[OF lt False] by blast+
      have "\<not> allRequests mb" by (rule allRequests_stuck[OF lt i0 False])
      then show ?thesis using st nd by simp
    next
      case True
      then obtain m req where m: "Nth mb i = Inr (Some m)" and q: "assertRequest (request m) = Some req"
        by blast
      show ?thesis
      proof (cases "skipped isS isC req")
        case sk: True
        have nd: "\<not> decodable isS isC mb i" using m q sk by (simp add: decodable_def)
        have eq: "?L = ReadBatch_loop isS isC dec b0 now (i + 1) mb rd"
          by (rule loop_skip[OF lt m q sk])
        have "trace_ok dec b0 (allRequests mb) (result ?L) (replyAt mb)
                (decodable isS isC mb (i + 1)) (i + 1) (pending isS isC mb (i + 1)) now (bytes (rb rd)) (src rd)
                (attempts ?L)"
          unfolding eq using "1.IH"(1)[OF _ m refl q sk] lt "1.prems" by simp
        then have "trace_ok dec b0 (allRequests mb) (result ?L) (replyAt mb)
                False i (pending isS isC mb (i + 1)) now (bytes (rb rd)) (src rd) (attempts ?L)"
          by (rule trace_ok_weaken) simp
        then show ?thesis using nd pending_step[OF lt i0, of isS isC] by simp
      next
        case ns: False
        have d: "decodable isS isC mb i" using m q ns lt i0 by (simp add: decodable_def)
        have pd: "pending isS isC mb i = i # pending isS isC mb (i + 1)"
          using pending_step[OF lt i0, of isS isC] d by simp
        have ra: "replyAt mb i = Some (reply req)" by (rule replyAt_Some[OF m q])
        obtain e reply' p' where dc: "dec (reply req) (bytes (rb rd)) (rpos (rb rd)) = (e, reply', p')"
          by (metis prod_cases3)
        let ?a = "\<lparr>aidx = i, abytes = bytes (rb rd), apos = rpos (rb rd), ain = reply req,
                   aerr = e, aout = reply', aend = p'\<rparr>"
        let ?rd1 = "AdvanceTo rd p'"
        let ?m1 = "m\<lparr>request := OwnRequest (req\<lparr>reply := reply'\<rparr>)\<rparr>"
        let ?mb1 = "mb\<lparr>msgs := (msgs mb)[nat i := Some ?m1]\<rparr>"
        let ?mb2 = "mb\<lparr>msgs := (msgs mb)[nat i := Some (MarkRead ?m1)]\<rparr>"
        note unf = loop_decode[where dec=dec and isS=isS and isC=isC and rd=rd and now=now and ?begin=b0, OF lt m q ns dc]
        have hd0: "(if decodable isS isC mb i then aidx ?a = i else i \<le> aidx ?a) \<and> pending isS isC mb i \<noteq> []
            \<and> aidx ?a = hd (pending isS isC mb i) \<and> apos ?a = now \<and> abytes ?a = bytes (rb rd)
            \<and> replyAt mb (aidx ?a) = Some (ain ?a)
            \<and> dec (ain ?a) (bytes (rb rd)) now = (aerr ?a, aout ?a, aend ?a)"
          using d pd ra dc "1.prems"(1) by simp
        show ?thesis
        proof (cases "e = Some ErrBufferFull")
          case bf: True
          obtain e2 rd2 where rr: "Reader_Read (AdvanceTo ?rd1 b0) = (e2, rd2)"
            by (cases "Reader_Read (AdvanceTo ?rd1 b0)")
          then have rr': "Reader_Read \<lparr>rb = \<lparr>bytes = bytes (rb rd), rpos = b0\<rparr>, src = src rd\<rparr> = (e2, rd2)"
            by (simp add: AdvanceTo_twice)
          show ?thesis
          proof (cases e2)
            case (Some err)
            then have at: "attempts ?L = [?a]" and rs: "result ?L = Inr (Some err)"
              using unf bf rr by (simp_all add: Let_def)
            show ?thesis unfolding at rs trace_ok.simps using hd0 bf rr' Some by simp
          next
            case None
            let ?s = "ReadBatch_loop isS isC dec b0 now i ?mb1 (AdvanceTo rd2 now)"
            have at: "attempts ?L = ?a # attempts ?s" and rs: "result ?L = result ?s"
              using unf bf rr None by (simp_all add: Let_def)
            have d1: "decodable isS isC ?mb1 i"
              using decodable_upd[OF lt m q, of ?m1 reply' isS isC i] d by simp
            have p1: "pending isS isC ?mb1 i = pending isS isC mb i"
              by (rule pending_upd[OF lt m q]) simp
            have r1: "replyAt ?mb1 = (replyAt mb)(i \<mapsto> reply')"
              by (rule replyAt_upd[OF lt m]) simp
            have w1: "allRequests ?mb1 = allRequests mb"
              by (rule allRequests_upd[OF lt m q]) simp
            have "trace_ok dec b0 (allRequests ?mb1) (result ?s) (replyAt ?mb1)
                    (decodable isS isC ?mb1 i) i (pending isS isC ?mb1 i) now (bytes (rb rd2)) (src rd2) (attempts ?s)"
              using "1.IH"(2)[OF _ m refl q ns dc[symmetric] refl refl refl refl bf rr[symmetric] None] lt i0
              by (simp add: AdvanceTo_def)
            then have ih: "trace_ok dec b0 (allRequests mb) (result ?s) ((replyAt mb)(i \<mapsto> reply'))
                    True i (pending isS isC mb i) now (bytes (rb rd2)) (src rd2) (attempts ?s)"
              using d1 p1 r1 w1 by simp
            show ?thesis unfolding at rs trace_ok.simps using hd0 bf rr' None ih by simp
          qed
        next
          case nbf: False
          show ?thesis
          proof (cases e)
            case (Some err)
            then have at: "attempts ?L = [?a]" and rs: "result ?L = Inr (Some err)"
              using unf nbf by (simp_all add: Let_def)
            show ?thesis unfolding at rs trace_ok.simps using hd0 nbf Some by simp
          next
            case None
            let ?s = "ReadBatch_loop isS isC dec b0 (Mark ?rd1) (i + 1) ?mb2 ?rd1"
            have at: "attempts ?L = ?a # attempts ?s" and rs: "result ?L = result ?s"
              using unf nbf None by (simp_all add: Let_def)
            have p2: "pending isS isC ?mb2 (i + 1) = pending isS isC mb (i + 1)"
              by (rule pending_upd[OF lt m q]) (simp add: MarkRead_def)
            have r2: "replyAt ?mb2 = (replyAt mb)(i \<mapsto> reply')"
              by (rule replyAt_upd[OF lt m]) (simp add: MarkRead_def)
            have w2: "allRequests ?mb2 = allRequests mb"
              by (rule allRequests_upd[OF lt m q]) (simp add: MarkRead_def)
            have "trace_ok dec b0 (allRequests ?mb2) (result ?s) (replyAt ?mb2)
                    (decodable isS isC ?mb2 (i + 1)) (i + 1) (pending isS isC ?mb2 (i + 1)) (Mark ?rd1)
                    (bytes (rb ?rd1)) (src ?rd1) (attempts ?s)"
              using "1.IH"(3)[OF _ m refl q ns dc[symmetric] refl refl refl refl nbf _ refl] lt None i0
              by (simp add: AdvanceTo_def Mark_def)
            then have "trace_ok dec b0 (allRequests mb) (result ?s) ((replyAt mb)(i \<mapsto> reply'))
                    (decodable isS isC ?mb2 (i + 1)) (i + 1) (pending isS isC mb (i + 1)) p'
                    (bytes (rb rd)) (src rd) (attempts ?s)"
              using p2 r2 w2 by (simp add: AdvanceTo_def Mark_def)
            then have ih: "trace_ok dec b0 (allRequests mb) (result ?s) ((replyAt mb)(i \<mapsto> reply'))
                    False (i + 1) (pending isS isC mb (i + 1)) p' (bytes (rb rd)) (src rd) (attempts ?s)"
              by (rule trace_ok_weaken) simp
            show ?thesis unfolding at rs trace_ok.simps using hd0 None ih pd by simp
          qed
        qed
      qed
    qed
  qed
qed

lemma Reader_Read_src:
  "Reader_Read rd = (None, rd') \<Longrightarrow> src rd' = drop 1 (src rd)"
  by (auto simp: Reader_Read_def fill_def split: list.splits sum.splits if_splits)

lemma trace_ok_step:
  assumes "trace_ok dec b0 allreq res rep retry i pend now bs sk (a # as)" and "as \<noteq> []"
  shows "trace_ok dec b0 allreq res (rep(aidx a \<mapsto> aout a)) (aerr a \<noteq> None)
           (if aerr a = None then aidx a + 1 else aidx a)
           (if aerr a = None then tl pend else pend)
           (if aerr a = None then aend a else now)
           (if aerr a = None then bs
            else bytes (rb (snd (Reader_Read \<lparr>rb = \<lparr>bytes = bs, rpos = b0\<rparr>, src = sk\<rparr>))))
           (if aerr a = None then sk else drop 1 sk) as
         \<and> (aerr a = None \<or> aerr a = Some ErrBufferFull)"
proof (cases "aerr a")
  case None
  then show ?thesis using assms(1) by auto
next
  case (Some e)
  then have bf: "e = ErrBufferFull" using assms by (auto split: if_splits)
  obtain e2 rd' where rr: "Reader_Read \<lparr>rb = \<lparr>bytes = bs, rpos = b0\<rparr>, src = sk\<rparr> = (e2, rd')"
    by (cases "Reader_Read \<lparr>rb = \<lparr>bytes = bs, rpos = b0\<rparr>, src = sk\<rparr>")
  have e2: "e2 = None" using assms Some bf rr by (cases e2) auto
  have "src rd' = drop 1 sk" using Reader_Read_src[OF rr[unfolded e2]] by simp
  then show ?thesis using assms(1) Some bf rr e2 by auto
qed

lemma decoded_Cons: "decoded (a # as) = (if aerr a = None then a # decoded as else decoded as)"
  by (simp add: decoded_def)

lemma reads_Cons: "reads (a # as) = (if aerr a = Some ErrBufferFull then Suc (reads as) else reads as)"
  by (simp add: reads_def)

lemma trace_ok_suffix:
  "trace_ok dec b0 allreq res rep retry i pend now bs sk tr \<Longrightarrow> j < length tr \<Longrightarrow>
   \<exists>rep' retry' i'.
      trace_ok dec b0 allreq res rep' retry' i' (drop (length (decoded (take j tr))) pend)
        (replyStart now (take j tr)) (abytes (tr ! j)) (drop (reads (take j tr)) sk) (drop j tr)
      \<and> i \<le> i'
      \<and> (\<forall>k. (\<forall>l<j. aidx (tr ! l) \<noteq> k) \<longrightarrow> rep' k = rep k)"
proof (induction tr arbitrary: rep retry i pend now bs sk j)
  case Nil
  then show ?case by simp
next
  case (Cons a as)
  show ?case
  proof (cases j)
    case 0
    have e: "abytes a = bs" using Cons.prems(1) by simp
    have "trace_ok dec b0 allreq res rep retry i (drop (length (decoded (take 0 (a # as)))) pend)
        (replyStart now (take 0 (a # as))) (abytes ((a # as) ! 0)) (drop (reads (take 0 (a # as))) sk)
        (drop 0 (a # as))"
      using Cons.prems(1) by (simp add: decoded_def reads_def e del: trace_ok.simps)
    then show ?thesis unfolding 0 by blast
  next
    case (Suc j')
    then have j': "j' < length as" using Cons.prems(2) by simp
    then have ne: "as \<noteq> []" by auto
    let ?rep1 = "rep(aidx a \<mapsto> aout a)"
    let ?i1 = "if aerr a = None then aidx a + 1 else aidx a"
    let ?pend1 = "if aerr a = None then tl pend else pend"
    let ?now1 = "if aerr a = None then aend a else now"
    let ?bs1 = "if aerr a = None then bs
            else bytes (rb (snd (Reader_Read \<lparr>rb = \<lparr>bytes = bs, rpos = b0\<rparr>, src = sk\<rparr>)))"
    let ?sk1 = "if aerr a = None then sk else drop 1 sk"
    note st = trace_ok_step[OF Cons.prems(1) ne]
    from st have t1: "trace_ok dec b0 allreq res ?rep1 (aerr a \<noteq> None) ?i1 ?pend1 ?now1 ?bs1 ?sk1 as"
      by (rule conjunct1)
    from st have ef: "aerr a = None \<or> aerr a = Some ErrBufferFull" by (rule conjunct2)
    from Cons.IH[OF t1 j'] obtain rep' retry' i' where
      ih: "trace_ok dec b0 allreq res rep' retry' i' (drop (length (decoded (take j' as))) ?pend1)
             (replyStart ?now1 (take j' as)) (abytes (as ! j')) (drop (reads (take j' as)) ?sk1) (drop j' as)"
      and lo: "?i1 \<le> i'"
      and rp: "\<forall>k. (\<forall>l<j'. aidx (as ! l) \<noteq> k) \<longrightarrow> rep' k = ?rep1 k"
      by blast
    have ia: "i \<le> aidx a" using Cons.prems(1) by (auto split: if_splits)
    have p: "drop (length (decoded (take j (a # as)))) pend = drop (length (decoded (take j' as))) ?pend1"
      unfolding Suc by (simp add: decoded_Cons drop_Suc)
    have n: "replyStart now (take j (a # as)) = replyStart ?now1 (take j' as)"
      unfolding Suc by simp
    have k: "drop (reads (take j (a # as))) sk = drop (reads (take j' as)) ?sk1"
      unfolding Suc using ef by (auto simp: reads_Cons drop_Suc drop_tl)
    have x: "trace_ok dec b0 allreq res rep' retry' i' (drop (length (decoded (take j (a # as)))) pend)
        (replyStart now (take j (a # as))) (abytes ((a # as) ! j)) (drop (reads (take j (a # as))) sk)
        (drop j (a # as))"
      unfolding p n k using ih unfolding Suc by simp
    have y: "i \<le> i'" using ia lo by (auto split: if_splits)
    have z: "\<forall>k. (\<forall>l<j. aidx ((a # as) ! l) \<noteq> k) \<longrightarrow> rep' k = rep k"
    proof (intro allI impI)
      fix k assume h: "\<forall>l<j. aidx ((a # as) ! l) \<noteq> k"
      from h have k0: "aidx a \<noteq> k" unfolding Suc by auto
      have "\<forall>l<j'. aidx (as ! l) \<noteq> k"
      proof (intro allI impI)
        fix l assume "l < j'"
        then have "Suc l < j" unfolding Suc by simp
        with h have "aidx ((a # as) ! Suc l) \<noteq> k" by blast
        then show "aidx (as ! l) \<noteq> k" by simp
      qed
      with rp have "rep' k = ?rep1 k" by blast
      then show "rep' k = rep k" using k0 by simp
    qed
    from x y z show ?thesis by blast
  qed
qed

lemma trace_ok_at:
  assumes "trace_ok dec b0 allreq res rep retry i pend now bs sk tr" and "j < length tr"
  shows "length (decoded (take j tr)) < length pend
       \<and> aidx (tr ! j) = pend ! length (decoded (take j tr))
       \<and> apos (tr ! j) = replyStart now (take j tr)
       \<and> dec (ain (tr ! j)) (abytes (tr ! j)) (apos (tr ! j)) = (aerr (tr ! j), aout (tr ! j), aend (tr ! j))
       \<and> i \<le> aidx (tr ! j)
       \<and> (j = 0 \<longrightarrow> abytes (tr ! j) = bs)
       \<and> ((\<forall>l<j. aidx (tr ! l) \<noteq> aidx (tr ! j)) \<longrightarrow> rep (aidx (tr ! j)) = Some (ain (tr ! j)))"
proof -
  from trace_ok_suffix[OF assms] obtain rep' retry' i' where
    t: "trace_ok dec b0 allreq res rep' retry' i' (drop (length (decoded (take j tr))) pend)
        (replyStart now (take j tr)) (abytes (tr ! j)) (drop (reads (take j tr)) sk) (drop j tr)"
    and lo: "i \<le> i'"
    and rp: "\<forall>k. (\<forall>l<j. aidx (tr ! l) \<noteq> k) \<longrightarrow> rep' k = rep k"
    by blast
  have d: "drop j tr = tr ! j # drop (Suc j) tr" using assms(2) by (simp add: Cons_nth_drop_Suc)
  let ?n = "length (decoded (take j tr))"
  from t have ne: "drop ?n pend \<noteq> []" and hd0: "aidx (tr ! j) = hd (drop ?n pend)"
    and po: "apos (tr ! j) = replyStart now (take j tr)"
    and dc: "dec (ain (tr ! j)) (abytes (tr ! j)) (replyStart now (take j tr))
              = (aerr (tr ! j), aout (tr ! j), aend (tr ! j))"
    and ii: "i' \<le> aidx (tr ! j)"
    and ra: "rep' (aidx (tr ! j)) = Some (ain (tr ! j))"
    unfolding d by (auto split: if_splits)
  have 1: "?n < length pend" using ne by simp
  have 2: "aidx (tr ! j) = pend ! ?n" using hd0 1 by (simp add: hd_drop_conv_nth)
  have 6: "j = 0 \<longrightarrow> abytes (tr ! j) = bs"
    using assms by (cases tr) auto
  have 7: "(\<forall>l<j. aidx (tr ! l) \<noteq> aidx (tr ! j)) \<longrightarrow> rep (aidx (tr ! j)) = Some (ain (tr ! j))"
    using rp ra by metis
  show ?thesis using 1 2 po dc lo ii 6 7 by simp
qed

lemma trace_ok_full:
  assumes "trace_ok dec b0 allreq res rep retry i pend now bs sk tr" and "j < length tr"
    and "aerr (tr ! j) = Some ErrBufferFull"
  shows "(case Reader_Read \<lparr>rb = \<lparr>bytes = abytes (tr ! j), rpos = b0\<rparr>, src = drop (reads (take j tr)) sk\<rparr> of
            (None, rd') \<Rightarrow>
              Suc j < length tr \<and> aidx (tr ! Suc j) = aidx (tr ! j) \<and> apos (tr ! Suc j) = apos (tr ! j)
              \<and> abytes (tr ! Suc j) = bytes (rb rd') \<and> ain (tr ! Suc j) = aout (tr ! j)
          | (Some e, rd') \<Rightarrow> Suc j = length tr \<and> res = Inr (Some e))"
proof -
  from trace_ok_suffix[OF assms(1,2)] obtain rep' retry' i' where
    t: "trace_ok dec b0 allreq res rep' retry' i' (drop (length (decoded (take j tr))) pend)
        (replyStart now (take j tr)) (abytes (tr ! j)) (drop (reads (take j tr)) sk) (drop j tr)"
    by blast
  have d: "drop j tr = tr ! j # drop (Suc j) tr" using assms(2) by (simp add: Cons_nth_drop_Suc)
  let ?R = "Reader_Read \<lparr>rb = \<lparr>bytes = abytes (tr ! j), rpos = b0\<rparr>, src = drop (reads (take j tr)) sk\<rparr>"
  obtain e2 rd' where rr: "?R = (e2, rd')" by (cases ?R)
  have po: "apos (tr ! j) = replyStart now (take j tr)" using t unfolding d by simp
  show ?thesis
  proof (cases e2)
    case (Some e)
    have "drop (Suc j) tr = [] \<and> res = Inr (Some e)"
      using t assms(3) rr Some unfolding d by simp
    then have "Suc j = length tr \<and> res = Inr (Some e)" using assms(2) by simp
    then show ?thesis using rr Some by simp
  next
    case None
    have t2: "trace_ok dec b0 allreq res (rep'(aidx (tr ! j) \<mapsto> aout (tr ! j))) True (aidx (tr ! j))
           (drop (length (decoded (take j tr))) pend) (replyStart now (take j tr))
           (bytes (rb rd')) (src rd') (drop (Suc j) tr)"
      using t assms(3) rr None unfolding d by auto
    then have ne: "drop (Suc j) tr \<noteq> []" by (cases "drop (Suc j) tr") auto
    then have lt: "Suc j < length tr" by simp
    have d2: "drop (Suc j) tr = tr ! Suc j # drop (Suc (Suc j)) tr" using lt by (simp add: Cons_nth_drop_Suc)
    have "aidx (tr ! Suc j) = aidx (tr ! j) \<and> apos (tr ! Suc j) = replyStart now (take j tr)
        \<and> abytes (tr ! Suc j) = bytes (rb rd') \<and> Some (aout (tr ! j)) = Some (ain (tr ! Suc j))"
      using t2 unfolding d2 by auto
    then show ?thesis using rr None lt po by simp
  qed
qed

lemma trace_ok_error:
  assumes "trace_ok dec b0 allreq res rep retry i pend now bs sk tr" and "j < length tr"
    and "aerr (tr ! j) = Some e" and "e \<noteq> ErrBufferFull"
  shows "Suc j = length tr \<and> res = Inr (Some e)"
proof -
  from trace_ok_suffix[OF assms(1,2)] obtain rep' retry' i' where
    t: "trace_ok dec b0 allreq res rep' retry' i' (drop (length (decoded (take j tr))) pend)
        (replyStart now (take j tr)) (abytes (tr ! j)) (drop (reads (take j tr)) sk) (drop j tr)"
    by blast
  have d: "drop j tr = tr ! j # drop (Suc j) tr" using assms(2) by (simp add: Cons_nth_drop_Suc)
  have "drop (Suc j) tr = [] \<and> res = Inr (Some e)"
    using t assms(3,4) unfolding d by simp
  then show ?thesis using assms(2) by simp
qed

lemma trace_ok_next:
  assumes "trace_ok dec b0 allreq res rep retry i pend now bs sk tr" and "Suc j < length tr"
  shows "\<exists>rep' retry' pend' now' bs' sk'.
           trace_ok dec b0 allreq res rep' retry' (if aerr (tr ! j) = None then aidx (tr ! j) + 1 else aidx (tr ! j))
             pend' now' bs' sk' (drop (Suc j) tr)
         \<and> (aerr (tr ! j) = None \<longrightarrow> bs' = abytes (tr ! j))"
proof -
  have lt: "j < length tr" using assms(2) by simp
  from trace_ok_suffix[OF assms(1) lt] obtain rep' retry' i' where
    t: "trace_ok dec b0 allreq res rep' retry' i' (drop (length (decoded (take j tr))) pend)
        (replyStart now (take j tr)) (abytes (tr ! j)) (drop (reads (take j tr)) sk) (drop j tr)"
    by blast
  have d: "drop j tr = tr ! j # drop (Suc j) tr" using lt by (simp add: Cons_nth_drop_Suc)
  have ne: "drop (Suc j) tr \<noteq> []" using assms(2) by simp
  note st = trace_ok_step[OF t[unfolded d] ne]
  show ?thesis
    apply (intro exI conjI)
     apply (rule conjunct1[OF st])
    apply simp
    done
qed

lemma trace_ok_after:
  assumes "trace_ok dec b0 allreq res rep retry i pend now bs sk tr" and "j < k" and "k < length tr"
  shows "(if aerr (tr ! j) = None then aidx (tr ! j) + 1 else aidx (tr ! j)) \<le> aidx (tr ! k)"
proof -
  have sj: "Suc j < length tr" using assms(2,3) by simp
  from trace_ok_next[OF assms(1) sj] obtain rep' retry' pend' now' bs' sk' where
    t: "trace_ok dec b0 allreq res rep' retry' (if aerr (tr ! j) = None then aidx (tr ! j) + 1 else aidx (tr ! j))
             pend' now' bs' sk' (drop (Suc j) tr)"
    by blast
  have l: "k - Suc j < length (drop (Suc j) tr)" using assms(2,3) by simp
  have "drop (Suc j) tr ! (k - Suc j) = tr ! k" using assms(2,3) by simp
  then show ?thesis using trace_ok_at[OF t l] by simp
qed

lemma trace_ok_same_bytes:
  assumes "trace_ok dec b0 allreq res rep retry i pend now bs sk tr" and "Suc j < length tr"
    and "aerr (tr ! j) = None"
  shows "abytes (tr ! Suc j) = abytes (tr ! j)"
proof -
  from trace_ok_next[OF assms(1,2)] obtain rep' retry' pend' now' bs' sk' where
    t: "trace_ok dec b0 allreq res rep' retry' (if aerr (tr ! j) = None then aidx (tr ! j) + 1 else aidx (tr ! j))
             pend' now' bs' sk' (drop (Suc j) tr)"
    and b: "aerr (tr ! j) = None \<longrightarrow> bs' = abytes (tr ! j)"
    by auto
  have l: "0 < length (drop (Suc j) tr)" using assms(2) by simp
  have "drop (Suc j) tr ! 0 = tr ! Suc j" using assms(2) by simp
  then show ?thesis using trace_ok_at[OF t l] b assms(3) by simp
qed

lemma trace_ok_ain:
  assumes "trace_ok dec b0 allreq res rep retry i pend now bs sk tr" and "j < length tr"
  shows "Some (ain (tr ! j)) =
           (if 0 < j \<and> aerr (tr ! (j - 1)) = Some ErrBufferFull then Some (aout (tr ! (j - 1)))
            else rep (aidx (tr ! j)))"
proof (cases "0 < j \<and> aerr (tr ! (j - 1)) = Some ErrBufferFull")
  case True
  then have lt: "j - 1 < length tr" and sj: "Suc (j - 1) = j" using assms(2) by simp_all
  let ?R = "Reader_Read \<lparr>rb = \<lparr>bytes = abytes (tr ! (j - 1)), rpos = b0\<rparr>,
                          src = drop (reads (take (j - 1) tr)) sk\<rparr>"
  obtain e2 rd' where rr: "?R = (e2, rd')" by (cases ?R)
  note f = trace_ok_full[OF assms(1) lt conjunct2[OF True]]
  have "e2 = None" using f rr assms(2) sj by (cases e2) auto
  then have "ain (tr ! j) = aout (tr ! (j - 1))" using f rr sj by simp
  then show ?thesis using True by simp
next
  case False
  have "\<forall>l<j. aidx (tr ! l) \<noteq> aidx (tr ! j)"
  proof (intro allI impI)
    fix l assume l: "l < j"
    then have j0: "0 < j" and lt: "j - 1 < length tr" and sj: "Suc (j - 1) = j" using assms(2) by simp_all
    have ok: "aerr (tr ! (j - 1)) = None"
    proof (cases "aerr (tr ! (j - 1))")
      case None then show ?thesis .
    next
      case (Some e)
      then have "e \<noteq> ErrBufferFull" using False j0 by simp
      from trace_ok_error[OF assms(1) lt Some this] have "j = length tr" using sj by simp
      then show ?thesis using assms(2) by simp
    qed
    have a: "aidx (tr ! (j - 1)) + 1 \<le> aidx (tr ! j)"
      using trace_ok_after[OF assms(1), of "j - 1" j] assms(2) j0 ok by simp
    have "aidx (tr ! l) \<le> aidx (tr ! (j - 1))"
    proof (cases "l = j - 1")
      case True then show ?thesis by simp
    next
      case False
      then have "l < j - 1" using l by simp
      from trace_ok_after[OF assms(1) this lt] show ?thesis by (auto split: if_splits)
    qed
    then show "aidx (tr ! l) \<noteq> aidx (tr ! j)" using a by simp
  qed
  then have "rep (aidx (tr ! j)) = Some (ain (tr ! j))"
    using trace_ok_at[OF assms] by blast
  then show ?thesis unfolding if_not_P[OF False] by simp
qed

lemma trace_ok_complete:
  "trace_ok dec b0 allreq res rep retry i pend now bs sk tr \<Longrightarrow> res = Inr None \<Longrightarrow>
   map aidx (decoded tr) = pend"
proof (induction tr arbitrary: rep retry i pend now bs sk)
  case Nil
  then show ?case by (simp add: decoded_def)
next
  case (Cons a as)
  show ?case
  proof (cases "as = []")
    case True
    show ?thesis
    proof (cases "aerr a")
      case None
      then have "tl pend = []" "pend \<noteq> []" "aidx a = hd pend"
        using Cons.prems True by simp_all
      then show ?thesis using None True by (cases pend) (simp_all add: decoded_def)
    next
      case (Some e)
      then show ?thesis using Cons.prems True
        by (auto split: if_splits prod.splits option.splits)
    qed
  next
    case False
    note st = trace_ok_step[OF Cons.prems(1) False]
    from st have ef: "aerr a = None \<or> aerr a = Some ErrBufferFull" by (rule conjunct2)
    have hp: "pend \<noteq> []" "aidx a = hd pend" using Cons.prems(1) by simp_all
    from Cons.IH[OF conjunct1[OF st] Cons.prems(2)]
    have "map aidx (decoded as) = (if aerr a = None then tl pend else pend)" .
    then show ?thesis using ef hp by (cases pend) (auto simp: decoded_Cons)
  qed
qed

lemma trace_ok_end:
  "trace_ok dec b0 allreq res rep retry i pend now bs sk tr \<Longrightarrow> allreq \<Longrightarrow>
   res = Inr None \<or> (tr \<noteq> [] \<and> aerr (last tr) \<noteq> None)"
proof (induction tr arbitrary: rep retry i pend now bs sk)
  case Nil
  then show ?case by simp
next
  case (Cons a as)
  show ?case
  proof (cases "as = []")
    case True
    show ?thesis
    proof (cases "aerr a")
      case None
      then show ?thesis using Cons.prems True by simp
    next
      case (Some e)
      then show ?thesis using True by simp
    qed
  next
    case False
    note st = trace_ok_step[OF Cons.prems(1) False]
    from Cons.IH[OF conjunct1[OF st] Cons.prems(2)] show ?thesis using False by auto
  qed
qed

lemma trace_ok_lower_set:
  assumes "trace_ok dec b0 allreq res rep retry i pend now bs sk tr" and "a \<in> set tr"
  shows "i \<le> aidx a"
proof -
  from assms(2) obtain j where j: "j < length tr" "tr ! j = a" by (auto simp: in_set_conv_nth)
  from trace_ok_at[OF assms(1) j(1)] show ?thesis using j(2) by simp
qed

lemma loop_untouched:
  "0 \<le> i \<Longrightarrow> \<forall>a\<in>set (attempts (ReadBatch_loop isS isC dec b0 now i mb rd)). aidx a \<noteq> k \<Longrightarrow>
   Nth (batch (ReadBatch_loop isS isC dec b0 now i mb rd)) k = Nth mb k"
proof (induction isS isC dec b0 now i mb rd rule: ReadBatch_loop.induct)
  case (1 isS isC dec b0 now i mb rd)
  let ?L = "ReadBatch_loop isS isC dec b0 now i mb rd"
  note i0 = "1.prems"(1)
  show ?case
  proof (cases "i < Count mb")
    case False
    then show ?thesis by (simp add: loop_done)
  next
    case lt: True
    show ?thesis
    proof (cases "\<exists>m req. Nth mb i = Inr (Some m) \<and> assertRequest (request m) = Some req")
      case False
      then show ?thesis using loop_stuck[OF lt False] by simp
    next
      case True
      then obtain m req where m: "Nth mb i = Inr (Some m)" and q: "assertRequest (request m) = Some req"
        by blast
      show ?thesis
      proof (cases "skipped isS isC req")
        case sk: True
        have eq: "?L = ReadBatch_loop isS isC dec b0 now (i + 1) mb rd"
          by (rule loop_skip[OF lt m q sk])
        show ?thesis unfolding eq
          using "1.IH"(1)[OF _ m refl q sk] lt "1.prems" eq by simp
      next
        case ns: False
        obtain e reply' p' where dc: "dec (reply req) (bytes (rb rd)) (rpos (rb rd)) = (e, reply', p')"
          by (metis prod_cases3)
        let ?a = "\<lparr>aidx = i, abytes = bytes (rb rd), apos = rpos (rb rd), ain = reply req,
                   aerr = e, aout = reply', aend = p'\<rparr>"
        let ?rd1 = "AdvanceTo rd p'"
        let ?m1 = "m\<lparr>request := OwnRequest (req\<lparr>reply := reply'\<rparr>)\<rparr>"
        let ?mb1 = "mb\<lparr>msgs := (msgs mb)[nat i := Some ?m1]\<rparr>"
        let ?mb2 = "mb\<lparr>msgs := (msgs mb)[nat i := Some (MarkRead ?m1)]\<rparr>"
        note unf = loop_decode[where dec=dec and isS=isS and isC=isC and rd=rd and now=now and ?begin=b0, OF lt m q ns dc]
        have in0: "?a \<in> set (attempts ?L)"
          using unf by (auto simp: Let_def split: prod.splits option.splits)
        then have ki: "k \<noteq> i" using "1.prems"(2) by auto
        have n1: "Nth ?mb1 k = Nth mb k" by (rule Nth_upd_other[OF ki i0])
        have n2: "Nth ?mb2 k = Nth mb k" by (rule Nth_upd_other[OF ki i0])
        show ?thesis
        proof (cases "e = Some ErrBufferFull")
          case bf: True
          obtain e2 rd2 where rr: "Reader_Read (AdvanceTo ?rd1 b0) = (e2, rd2)"
            by (cases "Reader_Read (AdvanceTo ?rd1 b0)")
          show ?thesis
          proof (cases e2)
            case (Some err)
            then have "batch ?L = ?mb1" using unf bf rr by (simp add: Let_def)
            then show ?thesis using n1 by simp
          next
            case None
            let ?s = "ReadBatch_loop isS isC dec b0 now i ?mb1 (AdvanceTo rd2 now)"
            have at: "attempts ?L = ?a # attempts ?s" and bt: "batch ?L = batch ?s"
              using unf bf rr None by (simp_all add: Let_def)
            have "\<forall>a\<in>set (attempts ?s). aidx a \<noteq> k" using "1.prems"(2) at by simp
            then have "Nth (batch ?s) k = Nth ?mb1 k"
              using "1.IH"(2)[OF _ m refl q ns dc[symmetric] refl refl refl refl bf rr[symmetric] None] lt i0
              by simp
            then show ?thesis using bt n1 by simp
          qed
        next
          case nbf: False
          show ?thesis
          proof (cases e)
            case (Some err)
            then have "batch ?L = ?mb1" using unf nbf by (simp add: Let_def)
            then show ?thesis using n1 by simp
          next
            case None
            let ?s = "ReadBatch_loop isS isC dec b0 (Mark ?rd1) (i + 1) ?mb2 ?rd1"
            have at: "attempts ?L = ?a # attempts ?s" and bt: "batch ?L = batch ?s"
              using unf nbf None by (simp_all add: Let_def)
            have "\<forall>a\<in>set (attempts ?s). aidx a \<noteq> k" using "1.prems"(2) at by simp
            then have "Nth (batch ?s) k = Nth ?mb2 k"
              using "1.IH"(3)[OF _ m refl q ns dc[symmetric] refl refl refl refl nbf _ refl] lt None i0
              by simp
            then show ?thesis using bt n2 by simp
          qed
        qed
      qed
    qed
  qed
qed

lemma loop_marked:
  "0 \<le> i \<Longrightarrow> rpos (rb rd) = now \<Longrightarrow> x \<in> set (attempts (ReadBatch_loop isS isC dec b0 now i mb rd)) \<Longrightarrow>
   aerr x = None \<Longrightarrow> Nth mb (aidx x) = Inr (Some m0) \<Longrightarrow> assertRequest (request m0) = Some req0 \<Longrightarrow>
   Nth (batch (ReadBatch_loop isS isC dec b0 now i mb rd)) (aidx x)
     = Inr (Some (MarkRead (m0\<lparr>request := OwnRequest (req0\<lparr>reply := aout x\<rparr>)\<rparr>)))"
proof (induction isS isC dec b0 now i mb rd arbitrary: m0 req0 rule: ReadBatch_loop.induct)
  case (1 isS isC dec b0 now i mb rd)
  let ?L = "ReadBatch_loop isS isC dec b0 now i mb rd"
  note i0 = "1.prems"(1)
  note xin = "1.prems"(3)
  note xok = "1.prems"(4)
  note xm = "1.prems"(5)
  note xq = "1.prems"(6)
  show ?case
  proof (cases "i < Count mb")
    case False
    then show ?thesis using xin by (simp add: loop_done)
  next
    case lt: True
    show ?thesis
    proof (cases "\<exists>m req. Nth mb i = Inr (Some m) \<and> assertRequest (request m) = Some req")
      case False
      then show ?thesis using loop_stuck[OF lt False] xin by simp
    next
      case True
      then obtain m req where m: "Nth mb i = Inr (Some m)" and q: "assertRequest (request m) = Some req"
        by blast
      show ?thesis
      proof (cases "skipped isS isC req")
        case sk: True
        have eq: "?L = ReadBatch_loop isS isC dec b0 now (i + 1) mb rd"
          by (rule loop_skip[OF lt m q sk])
        show ?thesis unfolding eq
          using "1.IH"(1)[OF _ m refl q sk _ _ _ xok xm xq] lt "1.prems"(2) i0 xin eq by simp
      next
        case ns: False
        obtain e reply' p' where dc: "dec (reply req) (bytes (rb rd)) (rpos (rb rd)) = (e, reply', p')"
          by (metis prod_cases3)
        let ?a = "\<lparr>aidx = i, abytes = bytes (rb rd), apos = rpos (rb rd), ain = reply req,
                   aerr = e, aout = reply', aend = p'\<rparr>"
        let ?rd1 = "AdvanceTo rd p'"
        let ?m1 = "m\<lparr>request := OwnRequest (req\<lparr>reply := reply'\<rparr>)\<rparr>"
        let ?mb1 = "mb\<lparr>msgs := (msgs mb)[nat i := Some ?m1]\<rparr>"
        let ?mb2 = "mb\<lparr>msgs := (msgs mb)[nat i := Some (MarkRead ?m1)]\<rparr>"
        note unf = loop_decode[where dec=dec and isS=isS and isC=isC and rd=rd and now=now and ?begin=b0, OF lt m q ns dc]
        show ?thesis
        proof (cases "e = Some ErrBufferFull")
          case bf: True
          obtain e2 rd2 where rr: "Reader_Read (AdvanceTo ?rd1 b0) = (e2, rd2)"
            by (cases "Reader_Read (AdvanceTo ?rd1 b0)")
          show ?thesis
          proof (cases e2)
            case (Some err)
            then have "attempts ?L = [?a]" using unf bf rr by (simp add: Let_def)
            then show ?thesis using xin xok bf by simp
          next
            case None
            let ?s = "ReadBatch_loop isS isC dec b0 now i ?mb1 (AdvanceTo rd2 now)"
            have at: "attempts ?L = ?a # attempts ?s" and bt: "batch ?L = batch ?s"
              using unf bf rr None by (simp_all add: Let_def)
            have "x \<in> set (?a # attempts ?s)" using xin unfolding at .
            then have "x = ?a \<or> x \<in> set (attempts ?s)" by (simp del: ReadBatch_loop.simps)
            moreover have "x \<noteq> ?a" using xok bf by auto
            ultimately have xs: "x \<in> set (attempts ?s)" by blast
            have rp: "rpos (rb (AdvanceTo rd2 now)) = now" by (simp add: AdvanceTo_def)
            note ih = "1.IH"(2)[OF _ m refl q ns dc[symmetric] refl refl refl refl bf rr[symmetric] None i0 rp xs xok]
            show ?thesis
            proof (cases "aidx x = i")
              case True
              have mm: "m0 = m" "req0 = req" using xm xq m q True by simp_all
              have n: "Nth ?mb1 (aidx x) = Inr (Some ?m1)"
                unfolding True by (rule Nth_upd_same[OF lt m])
              have "Nth (batch ?s) (aidx x)
                  = Inr (Some (MarkRead (?m1\<lparr>request := OwnRequest ((req\<lparr>reply := reply'\<rparr>)\<lparr>reply := aout x\<rparr>)\<rparr>)))"
                by (rule ih[OF _ n]) (simp_all add: lt assertRequest_def)
              then show ?thesis using bt mm by simp
            next
              case False
              have n: "Nth ?mb1 (aidx x) = Inr (Some m0)"
                by (simp only: Nth_upd_other[OF False i0] xm)
              have "Nth (batch ?s) (aidx x)
                  = Inr (Some (MarkRead (m0\<lparr>request := OwnRequest (req0\<lparr>reply := aout x\<rparr>)\<rparr>)))"
                by (rule ih[OF _ n xq]) (simp add: lt)
              then show ?thesis using bt by simp
            qed
          qed
        next
          case nbf: False
          show ?thesis
          proof (cases e)
            case (Some err)
            then have "attempts ?L = [?a]" using unf nbf by (simp add: Let_def)
            then show ?thesis using xin xok Some by simp
          next
            case None
            let ?s = "ReadBatch_loop isS isC dec b0 (Mark ?rd1) (i + 1) ?mb2 ?rd1"
            have at: "attempts ?L = ?a # attempts ?s" and bt: "batch ?L = batch ?s"
              using unf nbf None by (simp_all add: Let_def)
            have rp: "rpos (rb ?rd1) = Mark ?rd1" by (simp add: Mark_def)
            have i1: "0 \<le> i + 1" using i0 by simp
            note tk = loop_trace_ok[where dec=dec and isS=isS and isC=isC and ?b0.0=b0 and mb="?mb2", OF rp i1]
            have lo: "\<forall>a\<in>set (attempts ?s). i + 1 \<le> aidx a"
              using trace_ok_lower_set[OF tk] by blast
            show ?thesis
            proof (cases "x \<in> set (attempts ?s)")
              case False
              then have xa: "x = ?a" using xin at by simp
              then have xi: "aidx x = i" and xo: "aout x = reply'" by simp_all
              have mm: "m0 = m" "req0 = req" using xm xq m q xi by simp_all
              have "\<forall>a\<in>set (attempts ?s). aidx a \<noteq> i" using lo by auto
              then have "Nth (batch ?s) i = Nth ?mb2 i"
                by (rule loop_untouched[OF i1])
              also have "\<dots> = Inr (Some (MarkRead ?m1))" by (rule Nth_upd_same[OF lt m])
              finally show ?thesis using bt xi xo mm by simp
            next
              case xs: True
              then have ne: "aidx x \<noteq> i" using lo by auto
              have n: "Nth ?mb2 (aidx x) = Inr (Some m0)"
                by (simp only: Nth_upd_other[OF ne i0] xm)
              have "Nth (batch ?s) (aidx x)
                  = Inr (Some (MarkRead (m0\<lparr>request := OwnRequest (req0\<lparr>reply := aout x\<rparr>)\<rparr>)))"
                by (rule "1.IH"(3)[OF _ m refl q ns dc[symmetric] refl refl refl refl nbf _ refl i1 rp xs xok n xq])
                   (simp_all add: lt None)
              then show ?thesis using bt by simp
            qed
          qed
        qed
      qed
    qed
  qed
qed

lemma Reader_Read_consumes: "src (snd (Reader_Read rd)) = drop 1 (src rd)"
  by (auto simp: Reader_Read_def fill_def split: list.splits sum.splits)

lemma Reader_Read_keeps:
  "Reader_Read rd = (Some e, rd') \<Longrightarrow> rb rd' = rb rd"
  by (auto simp: Reader_Read_def fill_def split: list.splits sum.splits if_splits)

lemma loop_reader_src:
  "src (reader (ReadBatch_loop isS isC dec b0 now i mb rd))
     = drop (reads (attempts (ReadBatch_loop isS isC dec b0 now i mb rd))) (src rd)"
proof (induction isS isC dec b0 now i mb rd rule: ReadBatch_loop.induct)
  case (1 isS isC dec b0 now i mb rd)
  let ?L = "ReadBatch_loop isS isC dec b0 now i mb rd"
  show ?case
  proof (cases "i < Count mb")
    case False
    then show ?thesis by (simp add: loop_done reads_def)
  next
    case lt: True
    show ?thesis
    proof (cases "\<exists>m req. Nth mb i = Inr (Some m) \<and> assertRequest (request m) = Some req")
      case False
      have "ReadBatch_loop isS isC dec b0 now i mb rd
              = \<lparr>batch = mb, reader = rd, result = result ?L, attempts = []\<rparr>"
        using lt False
        by (subst ReadBatch_loop.simps, subst (2) ReadBatch_loop.simps)
           (auto split: sum.splits option.splits)
      then have "reader ?L = rd" "attempts ?L = []"
        by (metis readState.select_convs(2), metis readState.select_convs(4))
      then show ?thesis by (simp add: reads_def)
    next
      case True
      then obtain m req where m: "Nth mb i = Inr (Some m)" and q: "assertRequest (request m) = Some req"
        by blast
      show ?thesis
      proof (cases "skipped isS isC req")
        case sk: True
        have eq: "?L = ReadBatch_loop isS isC dec b0 now (i + 1) mb rd"
          by (rule loop_skip[OF lt m q sk])
        show ?thesis unfolding eq
          using "1.IH"(1)[OF _ m refl q sk] lt by simp
      next
        case ns: False
        obtain e reply' p' where dc: "dec (reply req) (bytes (rb rd)) (rpos (rb rd)) = (e, reply', p')"
          by (metis prod_cases3)
        let ?a = "\<lparr>aidx = i, abytes = bytes (rb rd), apos = rpos (rb rd), ain = reply req,
                   aerr = e, aout = reply', aend = p'\<rparr>"
        let ?rd1 = "AdvanceTo rd p'"
        let ?m1 = "m\<lparr>request := OwnRequest (req\<lparr>reply := reply'\<rparr>)\<rparr>"
        let ?mb1 = "mb\<lparr>msgs := (msgs mb)[nat i := Some ?m1]\<rparr>"
        let ?mb2 = "mb\<lparr>msgs := (msgs mb)[nat i := Some (MarkRead ?m1)]\<rparr>"
        note unf = loop_decode[where dec=dec and isS=isS and isC=isC and rd=rd and now=now and ?begin=b0, OF lt m q ns dc]
        show ?thesis
        proof (cases "e = Some ErrBufferFull")
          case bf: True
          obtain e2 rd2 where rr: "Reader_Read (AdvanceTo ?rd1 b0) = (e2, rd2)"
            by (cases "Reader_Read (AdvanceTo ?rd1 b0)")
          have s2: "src rd2 = drop 1 (src rd)"
            using Reader_Read_consumes[of "AdvanceTo ?rd1 b0"] rr by (simp add: AdvanceTo_def)
          show ?thesis
          proof (cases e2)
            case (Some err)
            then have "attempts ?L = [?a]" "reader ?L = rd2" using unf bf rr by (simp_all add: Let_def)
            then show ?thesis using s2 bf by (simp add: reads_def)
          next
            case None
            let ?s = "ReadBatch_loop isS isC dec b0 now i ?mb1 (AdvanceTo rd2 now)"
            have at: "attempts ?L = ?a # attempts ?s" and rd: "reader ?L = reader ?s"
              using unf bf rr None by (simp_all add: Let_def)
            have "src (reader ?s) = drop (reads (attempts ?s)) (src (AdvanceTo rd2 now))"
              using "1.IH"(2)[OF _ m refl q ns dc[symmetric] refl refl refl refl bf rr[symmetric] None] lt
              by simp
            then show ?thesis unfolding at rd using s2 bf by (simp add: reads_Cons AdvanceTo_def)
          qed
        next
          case nbf: False
          show ?thesis
          proof (cases e)
            case (Some err)
            then have "attempts ?L = [?a]" "reader ?L = ?rd1" using unf nbf by (simp_all add: Let_def)
            then show ?thesis using nbf by (simp add: reads_def AdvanceTo_def)
          next
            case None
            let ?s = "ReadBatch_loop isS isC dec b0 (Mark ?rd1) (i + 1) ?mb2 ?rd1"
            have at: "attempts ?L = ?a # attempts ?s" and rd: "reader ?L = reader ?s"
              using unf nbf None by (simp_all add: Let_def)
            have "src (reader ?s) = drop (reads (attempts ?s)) (src ?rd1)"
              using "1.IH"(3)[OF _ m refl q ns dc[symmetric] refl refl refl refl nbf _ refl] lt None
              by simp
            then show ?thesis unfolding at rd using None by (simp add: reads_Cons AdvanceTo_def)
          qed
        qed
      qed
    qed
  qed
qed

lemma loop_reader_nil:
  "rpos (rb rd) = now \<Longrightarrow> result (ReadBatch_loop isS isC dec b0 now i mb rd) = Inr None \<Longrightarrow>
   rb (reader (ReadBatch_loop isS isC dec b0 now i mb rd))
     = \<lparr>bytes = (if attempts (ReadBatch_loop isS isC dec b0 now i mb rd) = [] then bytes (rb rd)
                  else abytes (last (attempts (ReadBatch_loop isS isC dec b0 now i mb rd)))),
        rpos = replyStart now (attempts (ReadBatch_loop isS isC dec b0 now i mb rd))\<rparr>"
proof (induction isS isC dec b0 now i mb rd rule: ReadBatch_loop.induct)
  case (1 isS isC dec b0 now i mb rd)
  let ?L = "ReadBatch_loop isS isC dec b0 now i mb rd"
  note rp = "1.prems"(1)
  note rn = "1.prems"(2)
  show ?case
  proof (cases "i < Count mb")
    case False
    then show ?thesis using rp by (simp add: loop_done)
  next
    case lt: True
    show ?thesis
    proof (cases "\<exists>m req. Nth mb i = Inr (Some m) \<and> assertRequest (request m) = Some req")
      case False
      then show ?thesis using loop_stuck[OF lt False] rn by simp
    next
      case True
      then obtain m req where m: "Nth mb i = Inr (Some m)" and q: "assertRequest (request m) = Some req"
        by blast
      show ?thesis
      proof (cases "skipped isS isC req")
        case sk: True
        have eq: "?L = ReadBatch_loop isS isC dec b0 now (i + 1) mb rd"
          by (rule loop_skip[OF lt m q sk])
        show ?thesis unfolding eq
          using "1.IH"(1)[OF _ m refl q sk rp] lt rn eq by simp
      next
        case ns: False
        obtain e reply' p' where dc: "dec (reply req) (bytes (rb rd)) (rpos (rb rd)) = (e, reply', p')"
          by (metis prod_cases3)
        let ?a = "\<lparr>aidx = i, abytes = bytes (rb rd), apos = rpos (rb rd), ain = reply req,
                   aerr = e, aout = reply', aend = p'\<rparr>"
        let ?rd1 = "AdvanceTo rd p'"
        let ?m1 = "m\<lparr>request := OwnRequest (req\<lparr>reply := reply'\<rparr>)\<rparr>"
        let ?mb1 = "mb\<lparr>msgs := (msgs mb)[nat i := Some ?m1]\<rparr>"
        let ?mb2 = "mb\<lparr>msgs := (msgs mb)[nat i := Some (MarkRead ?m1)]\<rparr>"
        note unf = loop_decode[where dec=dec and isS=isS and isC=isC and rd=rd and now=now and ?begin=b0, OF lt m q ns dc]
        show ?thesis
        proof (cases "e = Some ErrBufferFull")
          case bf: True
          obtain e2 rd2 where rr: "Reader_Read (AdvanceTo ?rd1 b0) = (e2, rd2)"
            by (cases "Reader_Read (AdvanceTo ?rd1 b0)")
          show ?thesis
          proof (cases e2)
            case (Some err)
            then have "result ?L = Inr (Some err)" using unf bf rr by (simp add: Let_def)
            then show ?thesis using rn by simp
          next
            case None
            let ?s = "ReadBatch_loop isS isC dec b0 now i ?mb1 (AdvanceTo rd2 now)"
            have at: "attempts ?L = ?a # attempts ?s" and rd: "reader ?L = reader ?s"
              and rs: "result ?L = result ?s"
              using unf bf rr None by (simp_all add: Let_def)
            have rp2: "rpos (rb (AdvanceTo rd2 now)) = now" by (simp add: AdvanceTo_def)
            have d1: "decodable isS isC ?mb1 i"
              using decodable_upd[OF lt m q, of ?m1 reply' isS isC i] m q ns lt Nth_Some_range[OF lt m]
              by (simp add: decodable_def)
            have i0: "0 \<le> i" using Nth_Some_range[OF lt m] by simp
            from loop_trace_ok[where dec=dec and isS=isS and isC=isC and ?b0.0=b0 and mb="?mb1", OF rp2 i0]
            have ne: "attempts ?s \<noteq> []" using d1 by (cases "attempts ?s") auto
            have "rb (reader ?s) = \<lparr>bytes = (if attempts ?s = [] then bytes (rb (AdvanceTo rd2 now))
                                               else abytes (last (attempts ?s))),
                                      rpos = replyStart now (attempts ?s)\<rparr>"
              using "1.IH"(2)[OF _ m refl q ns dc[symmetric] refl refl refl refl bf rr[symmetric] None rp2]
                lt rn rs by simp
            then show ?thesis unfolding at rd using ne bf by simp
          qed
        next
          case nbf: False
          show ?thesis
          proof (cases e)
            case (Some err)
            then have "result ?L = Inr (Some err)" using unf nbf by (simp add: Let_def)
            then show ?thesis using rn by simp
          next
            case None
            let ?s = "ReadBatch_loop isS isC dec b0 (Mark ?rd1) (i + 1) ?mb2 ?rd1"
            have at: "attempts ?L = ?a # attempts ?s" and rd: "reader ?L = reader ?s"
              and rs: "result ?L = result ?s"
              using unf nbf None by (simp_all add: Let_def)
            have rp1: "rpos (rb ?rd1) = Mark ?rd1" by (simp add: Mark_def)
            have "rb (reader ?s) = \<lparr>bytes = (if attempts ?s = [] then bytes (rb ?rd1)
                                               else abytes (last (attempts ?s))),
                                      rpos = replyStart (Mark ?rd1) (attempts ?s)\<rparr>"
              using "1.IH"(3)[OF _ m refl q ns dc[symmetric] refl refl refl refl nbf _ refl rp1]
                lt rn rs None by simp
            then show ?thesis unfolding at rd using None by (simp add: AdvanceTo_def Mark_def)
          qed
        qed
      qed
    qed
  qed
qed

lemma loop_failed:
  "0 \<le> i \<Longrightarrow> rpos (rb rd) = now \<Longrightarrow> attempts (ReadBatch_loop isS isC dec b0 now i mb rd) \<noteq> [] \<Longrightarrow>
   x = last (attempts (ReadBatch_loop isS isC dec b0 now i mb rd)) \<Longrightarrow>
   aerr x \<noteq> None \<Longrightarrow> Nth mb (aidx x) = Inr (Some m0) \<Longrightarrow> assertRequest (request m0) = Some req0 \<Longrightarrow>
   Nth (batch (ReadBatch_loop isS isC dec b0 now i mb rd)) (aidx x)
     = Inr (Some (m0\<lparr>request := OwnRequest (req0\<lparr>reply := aout x\<rparr>)\<rparr>))"
proof (induction isS isC dec b0 now i mb rd arbitrary: m0 req0 rule: ReadBatch_loop.induct)
  case (1 isS isC dec b0 now i mb rd)
  let ?L = "ReadBatch_loop isS isC dec b0 now i mb rd"
  note i0 = "1.prems"(1)
  note rp = "1.prems"(2)
  note ne = "1.prems"(3)
  note xl = "1.prems"(4)
  note xe = "1.prems"(5)
  note xm = "1.prems"(6)
  note xq = "1.prems"(7)
  show ?case
  proof (cases "i < Count mb")
    case False
    then show ?thesis using ne by (simp add: loop_done)
  next
    case lt: True
    show ?thesis
    proof (cases "\<exists>m req. Nth mb i = Inr (Some m) \<and> assertRequest (request m) = Some req")
      case False
      then show ?thesis using loop_stuck[OF lt False] ne by simp
    next
      case True
      then obtain m req where m: "Nth mb i = Inr (Some m)" and q: "assertRequest (request m) = Some req"
        by blast
      show ?thesis
      proof (cases "skipped isS isC req")
        case sk: True
        have eq: "?L = ReadBatch_loop isS isC dec b0 now (i + 1) mb rd"
          by (rule loop_skip[OF lt m q sk])
        have i1: "0 \<le> i + 1" using i0 by simp
        show ?thesis unfolding eq
          by (rule "1.IH"(1)[OF _ m refl q sk i1 rp _ _ xe xm xq]) (use lt ne xl eq in simp_all)
      next
        case ns: False
        obtain e reply' p' where dc: "dec (reply req) (bytes (rb rd)) (rpos (rb rd)) = (e, reply', p')"
          by (metis prod_cases3)
        let ?a = "\<lparr>aidx = i, abytes = bytes (rb rd), apos = rpos (rb rd), ain = reply req,
                   aerr = e, aout = reply', aend = p'\<rparr>"
        let ?rd1 = "AdvanceTo rd p'"
        let ?m1 = "m\<lparr>request := OwnRequest (req\<lparr>reply := reply'\<rparr>)\<rparr>"
        let ?mb1 = "mb\<lparr>msgs := (msgs mb)[nat i := Some ?m1]\<rparr>"
        let ?mb2 = "mb\<lparr>msgs := (msgs mb)[nat i := Some (MarkRead ?m1)]\<rparr>"
        note unf = loop_decode[where dec=dec and isS=isS and isC=isC and rd=rd and now=now and ?begin=b0, OF lt m q ns dc]
        have single: "attempts ?L = [?a] \<Longrightarrow> batch ?L = ?mb1 \<Longrightarrow> ?thesis"
        proof -
          assume a1: "attempts ?L = [?a]" and b1: "batch ?L = ?mb1"
          have xa: "x = ?a" using xl a1 by simp
          then have xi: "aidx x = i" and xo: "aout x = reply'" by simp_all
          have mm: "m0 = m" "req0 = req" using xm xq m q xi by simp_all
          have "Nth ?mb1 i = Inr (Some ?m1)" by (rule Nth_upd_same[OF lt m])
          then show ?thesis unfolding b1 xi xo mm .
        qed
        show ?thesis
        proof (cases "e = Some ErrBufferFull")
          case bf: True
          obtain e2 rd2 where rr: "Reader_Read (AdvanceTo ?rd1 b0) = (e2, rd2)"
            by (cases "Reader_Read (AdvanceTo ?rd1 b0)")
          show ?thesis
          proof (cases e2)
            case (Some err)
            then have "attempts ?L = [?a]" "batch ?L = ?mb1" using unf bf rr by (simp_all add: Let_def)
            then show ?thesis by (rule single)
          next
            case None
            let ?s = "ReadBatch_loop isS isC dec b0 now i ?mb1 (AdvanceTo rd2 now)"
            have at: "attempts ?L = ?a # attempts ?s" and bt: "batch ?L = batch ?s"
              using unf bf rr None by (simp_all add: Let_def)
            have rp2: "rpos (rb (AdvanceTo rd2 now)) = now" by (simp add: AdvanceTo_def)
            have d1: "decodable isS isC ?mb1 i"
              using decodable_upd[OF lt m q, of ?m1 reply' isS isC i] m q ns lt i0
              by (simp add: decodable_def)
            from loop_trace_ok[where dec=dec and isS=isS and isC=isC and ?b0.0=b0 and mb="?mb1", OF rp2 i0]
            have ne2: "attempts ?s \<noteq> []" using d1 by (cases "attempts ?s") auto
            have xl2: "x = last (attempts ?s)" using xl at ne2 by simp
            note ih = "1.IH"(2)[OF _ m refl q ns dc[symmetric] refl refl refl refl bf rr[symmetric] None i0 rp2 ne2 xl2 xe]
            show ?thesis
            proof (cases "aidx x = i")
              case True
              have mm: "m0 = m" "req0 = req" using xm xq m q True by simp_all
              have n: "Nth ?mb1 (aidx x) = Inr (Some ?m1)"
                unfolding True by (rule Nth_upd_same[OF lt m])
              have "Nth (batch ?s) (aidx x)
                  = Inr (Some (?m1\<lparr>request := OwnRequest ((req\<lparr>reply := reply'\<rparr>)\<lparr>reply := aout x\<rparr>)\<rparr>))"
                by (rule ih[OF _ n]) (simp_all add: lt assertRequest_def)
              then show ?thesis using bt mm by simp
            next
              case False
              have n: "Nth ?mb1 (aidx x) = Inr (Some m0)"
                by (simp only: Nth_upd_other[OF False i0] xm)
              have "Nth (batch ?s) (aidx x)
                  = Inr (Some (m0\<lparr>request := OwnRequest (req0\<lparr>reply := aout x\<rparr>)\<rparr>))"
                by (rule ih[OF _ n xq]) (simp add: lt)
              then show ?thesis using bt by simp
            qed
          qed
        next
          case nbf: False
          show ?thesis
          proof (cases e)
            case (Some err)
            then have "attempts ?L = [?a]" "batch ?L = ?mb1" using unf nbf by (simp_all add: Let_def)
            then show ?thesis by (rule single)
          next
            case None
            let ?s = "ReadBatch_loop isS isC dec b0 (Mark ?rd1) (i + 1) ?mb2 ?rd1"
            have at: "attempts ?L = ?a # attempts ?s" and bt: "batch ?L = batch ?s"
              using unf nbf None by (simp_all add: Let_def)
            have rp1: "rpos (rb ?rd1) = Mark ?rd1" by (simp add: Mark_def)
            have i1: "0 \<le> i + 1" using i0 by simp
            have ne2: "attempts ?s \<noteq> []"
            proof
              assume "attempts ?s = []"
              then have "x = ?a" using xl at by simp
              then show False using xe None by simp
            qed
            have xl2: "x = last (attempts ?s)" using xl at ne2 by simp
            note tk = loop_trace_ok[where dec=dec and isS=isS and isC=isC and ?b0.0=b0 and mb="?mb2", OF rp1 i1]
            have "x \<in> set (attempts ?s)" using xl2 ne2 by simp
            from trace_ok_lower_set[OF tk this] have nei: "aidx x \<noteq> i" by simp
            have n: "Nth ?mb2 (aidx x) = Inr (Some m0)"
              by (simp only: Nth_upd_other[OF nei i0] xm)
            have "Nth (batch ?s) (aidx x)
                  = Inr (Some (m0\<lparr>request := OwnRequest (req0\<lparr>reply := aout x\<rparr>)\<rparr>))"
              by (rule "1.IH"(3)[OF _ m refl q ns dc[symmetric] refl refl refl refl nbf _ refl i1 rp1 ne2 xl2 xe n xq])
                 (simp_all add: lt None)
            then show ?thesis using bt by simp
          qed
        qed
      qed
    qed
  qed
qed

lemma ResetBuffer_nil: "ResetBuffer rd None = Inl NilDereference"
  by (simp add: ResetBuffer_def)

text \<open>
  C4. In any run of \<open>ReadBatch\<close>, with \<open>rd0\<close> the reader bound to the batch's buffer, \<open>s\<close> the
  state in which the loop ends and \<open>tr\<close> the calls of \<open>decode\<close> in order:

  \<^item> the call ends in the panic of the deferred \<open>ResetBuffer(nil)\<close>, with the messages and the
    reader as the loop left them;
  \<^item> every call of \<open>decode\<close> is for a message that is not skipped, namely the \<open>n\<close>-th such
    message of the batch after \<open>n\<close> successful calls; it is made on that message's reply
    object, with the reader at the start of the current reply, that is right after the
    last reply decoded successfully (the batch's start mark only while none was decoded);
  \<^item> after a call that failed with \<open>ErrBufferFull\<close> the socket is read once: if that
    succeeds, another call follows for the same message, on the reply object as the failed
    call left it, at the same position, with the bytes read appended to the buffer; if it
    fails, the loop returns the error of the read;
  \<^item> any other error of \<open>decode\<close> is returned at once;
  \<^item> a message decoded successfully is never decoded again, later calls being for later
    messages, on the same buffered bytes until the next read;
  \<^item> when the loop returns nil, the successful calls are, in order, those of the batch's
    messages that are not skipped; and when every message is a redis request, the loop
    returns nil or the error of its last call or read;
  \<^item> the message of every successful call holds the reply that this call decoded and is
    marked read, a message for which \<open>decode\<close> was never called is as it was, and the
    message of a last call that failed holds the reply object as that call left it, its
    marks being as they were;
  \<^item> the socket has been read once for every \<open>ErrBufferFull\<close>, and when the loop returns nil
    the reader stands right after the last reply decoded, on the bytes of the last call.
\<close>

theorem ReadBatch_retries_at_current_reply:
  assumes "ResetBuffer (br nc) (Some (buf mb)) = Inr rd0"
    and "s = ReadBatch_loop isS isC dec (Mark rd0) (Mark rd0) 0 mb rd0"
    and "tr = attempts s"
  shows "ReadBatch isS isC dec nc mb
           = ((batch s)\<lparr>buf := rb (reader s)\<rparr>, nc\<lparr>br := reader s\<rparr>, Inl NilDereference, tr)
       \<and> (\<forall>j<length tr.
             decodable isS isC mb (aidx (tr ! j))
           \<and> length (decoded (take j tr)) < length (pending isS isC mb 0)
           \<and> aidx (tr ! j) = pending isS isC mb 0 ! length (decoded (take j tr))
           \<and> apos (tr ! j) = replyStart (Mark rd0) (take j tr)
           \<and> Some (ain (tr ! j))
               = (if 0 < j \<and> aerr (tr ! (j - 1)) = Some ErrBufferFull then Some (aout (tr ! (j - 1)))
                  else replyAt mb (aidx (tr ! j)))
           \<and> dec (ain (tr ! j)) (abytes (tr ! j)) (apos (tr ! j))
               = (aerr (tr ! j), aout (tr ! j), aend (tr ! j)))
       \<and> (tr \<noteq> [] \<longrightarrow> abytes (tr ! 0) = bytes (rb rd0))
       \<and> (\<forall>j<length tr. aerr (tr ! j) = Some ErrBufferFull \<longrightarrow>
            (case Reader_Read \<lparr>rb = \<lparr>bytes = abytes (tr ! j), rpos = Mark rd0\<rparr>,
                               src = drop (reads (take j tr)) (src rd0)\<rparr> of
               (None, rd') \<Rightarrow>
                 Suc j < length tr \<and> aidx (tr ! Suc j) = aidx (tr ! j) \<and> apos (tr ! Suc j) = apos (tr ! j)
                 \<and> abytes (tr ! Suc j) = bytes (rb rd') \<and> ain (tr ! Suc j) = aout (tr ! j)
             | (Some e, rd') \<Rightarrow> Suc j = length tr \<and> result s = Inr (Some e)))
       \<and> (\<forall>j<length tr. \<forall>e. aerr (tr ! j) = Some e \<and> e \<noteq> ErrBufferFull \<longrightarrow>
            Suc j = length tr \<and> result s = Inr (Some e))
       \<and> (\<forall>j. Suc j < length tr \<and> aerr (tr ! j) = None \<longrightarrow> abytes (tr ! Suc j) = abytes (tr ! j))
       \<and> (\<forall>j k. j < k \<and> k < length tr \<and> aerr (tr ! j) = None \<longrightarrow> aidx (tr ! j) < aidx (tr ! k))
       \<and> (result s = Inr None \<longrightarrow> map aidx (decoded tr) = pending isS isC mb 0)
       \<and> (allRequests mb \<longrightarrow> result s = Inr None \<or> (tr \<noteq> [] \<and> aerr (last tr) \<noteq> None))
       \<and> (\<forall>j<length tr. aerr (tr ! j) = None \<longrightarrow>
            (\<exists>m req. Nth mb (aidx (tr ! j)) = Inr (Some m) \<and> assertRequest (request m) = Some req
               \<and> Nth (batch s) (aidx (tr ! j))
                   = Inr (Some (MarkRead (m\<lparr>request := OwnRequest (req\<lparr>reply := aout (tr ! j)\<rparr>)\<rparr>)))))
       \<and> (\<forall>k. (\<forall>j<length tr. aidx (tr ! j) \<noteq> k) \<longrightarrow> Nth (batch s) k = Nth mb k)
       \<and> (tr \<noteq> [] \<and> aerr (last tr) \<noteq> None \<longrightarrow>
            (\<exists>m req. Nth mb (aidx (last tr)) = Inr (Some m) \<and> assertRequest (request m) = Some req
               \<and> Nth (batch s) (aidx (last tr))
                   = Inr (Some (m\<lparr>request := OwnRequest (req\<lparr>reply := aout (last tr)\<rparr>)\<rparr>))))
       \<and> src (reader s) = drop (reads tr) (src rd0)
       \<and> (result s = Inr None \<longrightarrow>
            rb (reader s) = \<lparr>bytes = (if tr = [] then bytes (rb rd0) else abytes (last tr)),
                              rpos = replyStart (Mark rd0) tr\<rparr>)"
proof -
  let ?b = "Mark rd0"
  let ?P = "pending isS isC mb 0"
  have rp: "rpos (rb rd0) = ?b" by (simp add: Mark_def)
  have z: "(0::int) \<le> 0" by simp
  have "trace_ok dec ?b (allRequests mb) (result s) (replyAt mb) (decodable isS isC mb 0) 0 ?P ?b
          (bytes (rb rd0)) (src rd0) tr"
    unfolding assms(2,3) by (rule loop_trace_ok[OF rp z])
  then have ok: "trace_ok dec ?b (allRequests mb) (result s) (replyAt mb) False 0 ?P ?b
          (bytes (rb rd0)) (src rd0) tr"
    by (rule trace_ok_weaken) simp
  have dcb: "\<And>j. j < length tr \<Longrightarrow> decodable isS isC mb (aidx (tr ! j))"
  proof -
    fix j assume j: "j < length tr"
    from trace_ok_at[OF ok j] have "length (decoded (take j tr)) < length ?P"
      and "aidx (tr ! j) = ?P ! length (decoded (take j tr))" by simp_all
    then have "aidx (tr ! j) \<in> set ?P" by simp
    then show "decodable isS isC mb (aidx (tr ! j))" by (simp add: pending_def)
  qed
  have A: "ReadBatch isS isC dec nc mb
           = ((batch s)\<lparr>buf := rb (reader s)\<rparr>, nc\<lparr>br := reader s\<rparr>, Inl NilDereference, tr)"
    unfolding assms(2,3) by (simp add: ReadBatch_def assms(1) Let_def ResetBuffer_nil)
  have B: "\<forall>j<length tr.
             decodable isS isC mb (aidx (tr ! j))
           \<and> length (decoded (take j tr)) < length ?P
           \<and> aidx (tr ! j) = ?P ! length (decoded (take j tr))
           \<and> apos (tr ! j) = replyStart ?b (take j tr)
           \<and> Some (ain (tr ! j))
               = (if 0 < j \<and> aerr (tr ! (j - 1)) = Some ErrBufferFull then Some (aout (tr ! (j - 1)))
                  else replyAt mb (aidx (tr ! j)))
           \<and> dec (ain (tr ! j)) (abytes (tr ! j)) (apos (tr ! j))
               = (aerr (tr ! j), aout (tr ! j), aend (tr ! j))"
  proof (intro allI impI)
    fix j assume j: "j < length tr"
    note at = trace_ok_at[OF ok j]
    show "decodable isS isC mb (aidx (tr ! j))
           \<and> length (decoded (take j tr)) < length ?P
           \<and> aidx (tr ! j) = ?P ! length (decoded (take j tr))
           \<and> apos (tr ! j) = replyStart ?b (take j tr)
           \<and> Some (ain (tr ! j))
               = (if 0 < j \<and> aerr (tr ! (j - 1)) = Some ErrBufferFull then Some (aout (tr ! (j - 1)))
                  else replyAt mb (aidx (tr ! j)))
           \<and> dec (ain (tr ! j)) (abytes (tr ! j)) (apos (tr ! j))
               = (aerr (tr ! j), aout (tr ! j), aend (tr ! j))"
      using dcb[OF j] at trace_ok_ain[OF ok j] by blast
  qed
  have C: "tr \<noteq> [] \<longrightarrow> abytes (tr ! 0) = bytes (rb rd0)"
  proof
    assume "tr \<noteq> []"
    then have "0 < length tr" by simp
    from trace_ok_at[OF ok this] show "abytes (tr ! 0) = bytes (rb rd0)" by simp
  qed
  have D: "\<forall>j<length tr. aerr (tr ! j) = Some ErrBufferFull \<longrightarrow>
            (case Reader_Read \<lparr>rb = \<lparr>bytes = abytes (tr ! j), rpos = ?b\<rparr>,
                               src = drop (reads (take j tr)) (src rd0)\<rparr> of
               (None, rd') \<Rightarrow>
                 Suc j < length tr \<and> aidx (tr ! Suc j) = aidx (tr ! j) \<and> apos (tr ! Suc j) = apos (tr ! j)
                 \<and> abytes (tr ! Suc j) = bytes (rb rd') \<and> ain (tr ! Suc j) = aout (tr ! j)
             | (Some e, rd') \<Rightarrow> Suc j = length tr \<and> result s = Inr (Some e))"
    using trace_ok_full[OF ok] by blast
  have E: "\<forall>j<length tr. \<forall>e. aerr (tr ! j) = Some e \<and> e \<noteq> ErrBufferFull \<longrightarrow>
            Suc j = length tr \<and> result s = Inr (Some e)"
    using trace_ok_error[OF ok] by blast
  have F: "\<forall>j. Suc j < length tr \<and> aerr (tr ! j) = None \<longrightarrow> abytes (tr ! Suc j) = abytes (tr ! j)"
    using trace_ok_same_bytes[OF ok] by blast
  have G: "\<forall>j k. j < k \<and> k < length tr \<and> aerr (tr ! j) = None \<longrightarrow> aidx (tr ! j) < aidx (tr ! k)"
  proof (intro allI impI)
    fix j k assume h: "j < k \<and> k < length tr \<and> aerr (tr ! j) = None"
    then have "j < k" "k < length tr" "aerr (tr ! j) = None" by simp_all
    from trace_ok_after[OF ok this(1,2)] this(3) show "aidx (tr ! j) < aidx (tr ! k)" by simp
  qed
  have H: "result s = Inr None \<longrightarrow> map aidx (decoded tr) = ?P"
    using trace_ok_complete[OF ok] by blast
  have I: "allRequests mb \<longrightarrow> result s = Inr None \<or> (tr \<noteq> [] \<and> aerr (last tr) \<noteq> None)"
    using trace_ok_end[OF ok] by blast
  have J: "\<forall>j<length tr. aerr (tr ! j) = None \<longrightarrow>
            (\<exists>m req. Nth mb (aidx (tr ! j)) = Inr (Some m) \<and> assertRequest (request m) = Some req
               \<and> Nth (batch s) (aidx (tr ! j))
                   = Inr (Some (MarkRead (m\<lparr>request := OwnRequest (req\<lparr>reply := aout (tr ! j)\<rparr>)\<rparr>))))"
  proof (intro allI impI)
    fix j assume j: "j < length tr" and e: "aerr (tr ! j) = None"
    from dcb[OF j] obtain m req where m: "Nth mb (aidx (tr ! j)) = Inr (Some m)"
      and q: "assertRequest (request m) = Some req"
      by (auto simp: decodable_def split: sum.splits option.splits)
    have "tr ! j \<in> set (attempts (ReadBatch_loop isS isC dec ?b ?b 0 mb rd0))"
      using j unfolding assms(2,3) by simp
    from loop_marked[OF z rp this e m q]
    have "Nth (batch s) (aidx (tr ! j))
            = Inr (Some (MarkRead (m\<lparr>request := OwnRequest (req\<lparr>reply := aout (tr ! j)\<rparr>)\<rparr>)))"
      unfolding assms(2) .
    with m q show "\<exists>m req. Nth mb (aidx (tr ! j)) = Inr (Some m) \<and> assertRequest (request m) = Some req
               \<and> Nth (batch s) (aidx (tr ! j))
                   = Inr (Some (MarkRead (m\<lparr>request := OwnRequest (req\<lparr>reply := aout (tr ! j)\<rparr>)\<rparr>)))"
      by blast
  qed
  have K: "\<forall>k. (\<forall>j<length tr. aidx (tr ! j) \<noteq> k) \<longrightarrow> Nth (batch s) k = Nth mb k"
  proof (intro allI impI)
    fix k assume h: "\<forall>j<length tr. aidx (tr ! j) \<noteq> k"
    have "\<forall>a\<in>set (attempts (ReadBatch_loop isS isC dec ?b ?b 0 mb rd0)). aidx a \<noteq> k"
      using h unfolding assms(2,3) by (auto simp: in_set_conv_nth)
    from loop_untouched[OF z this] show "Nth (batch s) k = Nth mb k" unfolding assms(2) .
  qed
  have L: "tr \<noteq> [] \<and> aerr (last tr) \<noteq> None \<longrightarrow>
            (\<exists>m req. Nth mb (aidx (last tr)) = Inr (Some m) \<and> assertRequest (request m) = Some req
               \<and> Nth (batch s) (aidx (last tr))
                   = Inr (Some (m\<lparr>request := OwnRequest (req\<lparr>reply := aout (last tr)\<rparr>)\<rparr>)))"
  proof
    assume h: "tr \<noteq> [] \<and> aerr (last tr) \<noteq> None"
    then have ne: "tr \<noteq> []" and e: "aerr (last tr) \<noteq> None" by simp_all
    have lj: "length tr - 1 < length tr" and la: "last tr = tr ! (length tr - 1)"
      using ne by (simp_all add: last_conv_nth)
    from dcb[OF lj] obtain m req where m: "Nth mb (aidx (last tr)) = Inr (Some m)"
      and q: "assertRequest (request m) = Some req"
      unfolding la by (auto simp: decodable_def split: sum.splits option.splits)
    have ne': "attempts (ReadBatch_loop isS isC dec ?b ?b 0 mb rd0) \<noteq> []"
      using ne unfolding assms(2,3) .
    have xl: "last tr = last (attempts (ReadBatch_loop isS isC dec ?b ?b 0 mb rd0))"
      unfolding assms(2,3) by simp
    from loop_failed[OF z rp ne' xl e m q]
    have "Nth (batch s) (aidx (last tr))
            = Inr (Some (m\<lparr>request := OwnRequest (req\<lparr>reply := aout (last tr)\<rparr>)\<rparr>))"
      unfolding assms(2) .
    with m q show "\<exists>m req. Nth mb (aidx (last tr)) = Inr (Some m) \<and> assertRequest (request m) = Some req
               \<and> Nth (batch s) (aidx (last tr))
                   = Inr (Some (m\<lparr>request := OwnRequest (req\<lparr>reply := aout (last tr)\<rparr>)\<rparr>))"
      by blast
  qed
  have M: "src (reader s) = drop (reads tr) (src rd0)"
    unfolding assms(2,3) by (rule loop_reader_src)
  have N: "result s = Inr None \<longrightarrow>
            rb (reader s) = \<lparr>bytes = (if tr = [] then bytes (rb rd0) else abytes (last tr)),
                              rpos = replyStart ?b tr\<rparr>"
    unfolding assms(2,3) using loop_reader_nil[OF rp] by blast
  show ?thesis by (intro conjI A B C D E F G H I J K L M N)
qed

lemma read_bind: "ResetBuffer (br read_conn) (Some (buf read_batch)) = Inr read_rd0"
  by (simp add: ResetBuffer_def read_conn_def newNodeConn_def read_batch_def batch_of_def
      Buffer_Reset_def read_rd0_def Let_def)

lemma read_run:
  "read_end = ReadBatch_loop isSupport_text isCtl_text decode_line (Mark read_rd0) (Mark read_rd0) 0
                read_batch read_rd0"
  by (simp add: read_end_def read_rd0_def read_batch_def batch_of_def read_msgs_def Mark_def
        ReadBatch_loop.simps Count_def Nth_def cmd_def msg_def assertRequest_def skipped_def
        isSupport_text_def isCtl_text_def decode_line_def AdvanceTo_def Reader_Read_def fill_def LF_def
        MarkRead_def Let_def read_attempts_def)

lemma read_trace: "read_attempts = attempts read_end"
  by (simp add: read_end_def)

theorem ReadBatch_retries_at_current_reply_witness:
  "ResetBuffer (br read_conn) (Some (buf read_batch)) = Inr read_rd0
   \<and> read_end = ReadBatch_loop isSupport_text isCtl_text decode_line (Mark read_rd0) (Mark read_rd0) 0
                  read_batch read_rd0
   \<and> read_attempts = attempts read_end
   \<and> ReadBatch isSupport_text isCtl_text decode_line read_conn read_batch
       = ((batch read_end)\<lparr>buf := rb (reader read_end)\<rparr>, read_conn\<lparr>br := reader read_end\<rparr>,
          Inl NilDereference, read_attempts)
   \<and> result read_end = Inr None
   \<and> apos (read_attempts ! 3) = replyStart (Mark read_rd0) (take 3 read_attempts)
   \<and> apos (read_attempts ! 3) = 3
   \<and> aerr (read_attempts ! 2) = Some ErrBufferFull
   \<and> aidx (read_attempts ! 3) = aidx (read_attempts ! 2)
   \<and> abytes (read_attempts ! 3) = ''va'' @ [LF] @ ''vb'' @ [LF]
   \<and> aidx (read_attempts ! 1) < aidx (read_attempts ! 3)
   \<and> map aidx (decoded read_attempts) = pending isSupport_text isCtl_text read_batch 0
   \<and> map aidx (decoded read_attempts) = [0, 2]
   \<and> allRequests read_batch
   \<and> (result read_end = Inr None \<or> (read_attempts \<noteq> [] \<and> aerr (last read_attempts) \<noteq> None))
   \<and> Nth (batch read_end) 2 = Inr (Some (MarkRead (msg (OwnRequest \<lparr>resp = ''GET b'', reply = ''vb''\<rparr>))))
   \<and> Nth (batch read_end) 1 = Nth read_batch 1
   \<and> rb (reader read_end) = \<lparr>bytes = ''va'' @ [LF] @ ''vb'' @ [LF], rpos = 6\<rparr>
   \<and> src (reader read_end) = []"
proof -
  note t = ReadBatch_retries_at_current_reply [OF read_bind read_run read_trace]
  have len: "length read_attempts = 4" by (simp add: read_attempts_def)
  have e1: "aerr (read_attempts ! 1) = None" and e2: "aerr (read_attempts ! 2) = Some ErrBufferFull"
    and e3: "aerr (read_attempts ! 3) = None"
    by (simp_all add: read_attempts_def)
  from t have A: "ReadBatch isSupport_text isCtl_text decode_line read_conn read_batch
       = ((batch read_end)\<lparr>buf := rb (reader read_end)\<rparr>, read_conn\<lparr>br := reader read_end\<rparr>,
          Inl NilDereference, read_attempts)"
    by (rule conjunct1)
  have R: "result read_end = Inr None" by (simp add: read_end_def)
  note t2 = conjunct2[OF t]
  from t2 have "\<forall>j<length read_attempts.
             decodable isSupport_text isCtl_text read_batch (aidx (read_attempts ! j))
           \<and> length (decoded (take j read_attempts)) < length (pending isSupport_text isCtl_text read_batch 0)
           \<and> aidx (read_attempts ! j) = pending isSupport_text isCtl_text read_batch 0 ! length (decoded (take j read_attempts))
           \<and> apos (read_attempts ! j) = replyStart (Mark read_rd0) (take j read_attempts)
           \<and> Some (ain (read_attempts ! j))
               = (if 0 < j \<and> aerr (read_attempts ! (j - 1)) = Some ErrBufferFull then Some (aout (read_attempts ! (j - 1)))
                  else replyAt read_batch (aidx (read_attempts ! j)))
           \<and> decode_line (ain (read_attempts ! j)) (abytes (read_attempts ! j)) (apos (read_attempts ! j))
               = (aerr (read_attempts ! j), aout (read_attempts ! j), aend (read_attempts ! j))"
    by (rule conjunct1)
  then have "3 < length read_attempts \<longrightarrow>
             decodable isSupport_text isCtl_text read_batch (aidx (read_attempts ! 3))
           \<and> length (decoded (take 3 read_attempts)) < length (pending isSupport_text isCtl_text read_batch 0)
           \<and> aidx (read_attempts ! 3) = pending isSupport_text isCtl_text read_batch 0 ! length (decoded (take 3 read_attempts))
           \<and> apos (read_attempts ! 3) = replyStart (Mark read_rd0) (take 3 read_attempts)
           \<and> Some (ain (read_attempts ! 3))
               = (if 0 < (3::nat) \<and> aerr (read_attempts ! (3 - 1)) = Some ErrBufferFull then Some (aout (read_attempts ! (3 - 1)))
                  else replyAt read_batch (aidx (read_attempts ! 3)))
           \<and> decode_line (ain (read_attempts ! 3)) (abytes (read_attempts ! 3)) (apos (read_attempts ! 3))
               = (aerr (read_attempts ! 3), aout (read_attempts ! 3), aend (read_attempts ! 3))"
    by (rule spec)
  then have B: "apos (read_attempts ! 3) = replyStart (Mark read_rd0) (take 3 read_attempts)"
    unfolding len by simp
  have B': "apos (read_attempts ! 3) = 3" by (simp add: read_attempts_def)
  note t4 = conjunct2[OF conjunct2[OF t2]]
  let ?R = "Reader_Read \<lparr>rb = \<lparr>bytes = abytes (read_attempts ! 2), rpos = Mark read_rd0\<rparr>,
                          src = drop (reads (take 2 read_attempts)) (src read_rd0)\<rparr>"
  from t4 have "\<forall>j<length read_attempts. aerr (read_attempts ! j) = Some ErrBufferFull \<longrightarrow>
            (case Reader_Read \<lparr>rb = \<lparr>bytes = abytes (read_attempts ! j), rpos = Mark read_rd0\<rparr>,
                               src = drop (reads (take j read_attempts)) (src read_rd0)\<rparr> of
               (None, rd') \<Rightarrow>
                 Suc j < length read_attempts \<and> aidx (read_attempts ! Suc j) = aidx (read_attempts ! j)
                 \<and> apos (read_attempts ! Suc j) = apos (read_attempts ! j)
                 \<and> abytes (read_attempts ! Suc j) = bytes (rb rd') \<and> ain (read_attempts ! Suc j) = aout (read_attempts ! j)
             | (Some e, rd') \<Rightarrow> Suc j = length read_attempts \<and> result read_end = Inr (Some e))"
    by (rule conjunct1)
  then have "2 < length read_attempts \<longrightarrow> aerr (read_attempts ! 2) = Some ErrBufferFull \<longrightarrow>
            (case ?R of
               (None, rd') \<Rightarrow>
                 Suc 2 < length read_attempts \<and> aidx (read_attempts ! Suc 2) = aidx (read_attempts ! 2)
                 \<and> apos (read_attempts ! Suc 2) = apos (read_attempts ! 2)
                 \<and> abytes (read_attempts ! Suc 2) = bytes (rb rd') \<and> ain (read_attempts ! Suc 2) = aout (read_attempts ! 2)
             | (Some e, rd') \<Rightarrow> Suc 2 = length read_attempts \<and> result read_end = Inr (Some e))"
    by (rule spec)
  then have d: "(case ?R of
               (None, rd') \<Rightarrow>
                 Suc 2 < length read_attempts \<and> aidx (read_attempts ! Suc 2) = aidx (read_attempts ! 2)
                 \<and> apos (read_attempts ! Suc 2) = apos (read_attempts ! 2)
                 \<and> abytes (read_attempts ! Suc 2) = bytes (rb rd') \<and> ain (read_attempts ! Suc 2) = aout (read_attempts ! 2)
             | (Some e, rd') \<Rightarrow> Suc 2 = length read_attempts \<and> result read_end = Inr (Some e))"
    unfolding len using e2 by simp
  have rr: "?R = (None, \<lparr>rb = \<lparr>bytes = ''va'' @ [LF] @ ''vb'' @ [LF], rpos = 0\<rparr>, src = []\<rparr>)"
    by (simp add: read_attempts_def reads_def read_rd0_def Reader_Read_def fill_def Mark_def LF_def)
  from d have D: "aidx (read_attempts ! 3) = aidx (read_attempts ! 2)"
    and D': "abytes (read_attempts ! 3) = ''va'' @ [LF] @ ''vb'' @ [LF]"
    unfolding rr by (simp_all add: numeral_3_eq_3)
  note t7 = conjunct2[OF conjunct2[OF conjunct2[OF t4]]]
  from t7 have "\<forall>j k. j < k \<and> k < length read_attempts \<and> aerr (read_attempts ! j) = None
                  \<longrightarrow> aidx (read_attempts ! j) < aidx (read_attempts ! k)"
    by (rule conjunct1)
  then have "1 < (3::nat) \<and> 3 < length read_attempts \<and> aerr (read_attempts ! 1) = None
      \<longrightarrow> aidx (read_attempts ! 1) < aidx (read_attempts ! 3)" by blast
  then have G: "aidx (read_attempts ! 1) < aidx (read_attempts ! 3)"
    unfolding len using e1 by simp
  note t8 = conjunct2[OF t7]
  from t8 have "result read_end = Inr None
      \<longrightarrow> map aidx (decoded read_attempts) = pending isSupport_text isCtl_text read_batch 0"
    by (rule conjunct1)
  then have H: "map aidx (decoded read_attempts) = pending isSupport_text isCtl_text read_batch 0"
    using R by simp
  have H': "map aidx (decoded read_attempts) = [0, 2]"
    by (simp add: read_attempts_def decoded_def)
  have ar: "allRequests read_batch"
    by (simp add: allRequests_def read_batch_def batch_of_def read_msgs_def Count_def replyAt_def Nth_def
        cmd_def msg_def assertRequest_def upto_rec1)
  from t8 have "allRequests read_batch
      \<longrightarrow> result read_end = Inr None \<or> (read_attempts \<noteq> [] \<and> aerr (last read_attempts) \<noteq> None)"
    by (rule conjunct1[OF conjunct2])
  then have I: "result read_end = Inr None \<or> (read_attempts \<noteq> [] \<and> aerr (last read_attempts) \<noteq> None)"
    using ar by blast
  note t10 = conjunct2[OF conjunct2[OF t8]]
  from t10 have "\<forall>j<length read_attempts. aerr (read_attempts ! j) = None \<longrightarrow>
            (\<exists>m req. Nth read_batch (aidx (read_attempts ! j)) = Inr (Some m) \<and> assertRequest (request m) = Some req
               \<and> Nth (batch read_end) (aidx (read_attempts ! j))
                   = Inr (Some (MarkRead (m\<lparr>request := OwnRequest (req\<lparr>reply := aout (read_attempts ! j)\<rparr>)\<rparr>))))"
    by (rule conjunct1)
  then have "3 < length read_attempts \<longrightarrow> aerr (read_attempts ! 3) = None \<longrightarrow>
            (\<exists>m req. Nth read_batch (aidx (read_attempts ! 3)) = Inr (Some m) \<and> assertRequest (request m) = Some req
               \<and> Nth (batch read_end) (aidx (read_attempts ! 3))
                   = Inr (Some (MarkRead (m\<lparr>request := OwnRequest (req\<lparr>reply := aout (read_attempts ! 3)\<rparr>)\<rparr>))))"
    by (rule spec)
  then obtain m req where m: "Nth read_batch (aidx (read_attempts ! 3)) = Inr (Some m)"
    and q: "assertRequest (request m) = Some req"
    and n: "Nth (batch read_end) (aidx (read_attempts ! 3))
                   = Inr (Some (MarkRead (m\<lparr>request := OwnRequest (req\<lparr>reply := aout (read_attempts ! 3)\<rparr>)\<rparr>)))"
    unfolding len using e3 by auto
  have i3: "aidx (read_attempts ! 3) = 2" and o3: "aout (read_attempts ! 3) = ''vb''"
    by (simp_all add: read_attempts_def)
  have "Nth read_batch 2 = Inr (Some (cmd ''GET b''))"
    by (simp add: read_batch_def batch_of_def read_msgs_def Nth_def)
  then have m': "m = cmd ''GET b''" using m unfolding i3 by simp
  then have q': "req = \<lparr>resp = ''GET b'', reply = []\<rparr>"
    using q by (simp add: cmd_def msg_def assertRequest_def)
  have J: "Nth (batch read_end) 2 = Inr (Some (MarkRead (msg (OwnRequest \<lparr>resp = ''GET b'', reply = ''vb''\<rparr>))))"
    using n unfolding i3 o3 m' q' by (simp add: cmd_def msg_def)
  note t11 = conjunct2[OF t10]
  from t11 have "\<forall>k. (\<forall>j<length read_attempts. aidx (read_attempts ! j) \<noteq> k)
       \<longrightarrow> Nth (batch read_end) k = Nth read_batch k"
    by (rule conjunct1)
  then have "(\<forall>j<length read_attempts. aidx (read_attempts ! j) \<noteq> 1)
       \<longrightarrow> Nth (batch read_end) 1 = Nth read_batch 1"
    by (rule spec)
  moreover have "\<forall>j<length read_attempts. aidx (read_attempts ! j) \<noteq> 1"
    unfolding len by (auto simp: read_attempts_def nth_Cons split: nat.splits)
  ultimately have K: "Nth (batch read_end) 1 = Nth read_batch 1" by blast
  note t12 = conjunct2[OF conjunct2[OF t11]]
  from t12 have "src (reader read_end) = drop (reads read_attempts) (src read_rd0)"
    by (rule conjunct1)
  then have M: "src (reader read_end) = []"
    by (simp add: reads_def read_attempts_def read_rd0_def)
  from t12 have "result read_end = Inr None \<longrightarrow>
            rb (reader read_end) = \<lparr>bytes = (if read_attempts = [] then bytes (rb read_rd0) else abytes (last read_attempts)),
                              rpos = replyStart (Mark read_rd0) read_attempts\<rparr>"
    by (rule conjunct2)
  then have "rb (reader read_end) = \<lparr>bytes = (if read_attempts = [] then bytes (rb read_rd0) else abytes (last read_attempts)),
                              rpos = replyStart (Mark read_rd0) read_attempts\<rparr>"
    using R by blast
  then have N: "rb (reader read_end) = \<lparr>bytes = ''va'' @ [LF] @ ''vb'' @ [LF], rpos = 6\<rparr>"
    by (simp add: read_attempts_def read_rd0_def Mark_def)
  show ?thesis by (intro conjI read_bind read_run read_trace A R B B' e2 D D' G H H' ar I J K N M)
qed

subsection \<open>Closing a node connection\<close>

lemma mc_call_closed:
  "mc_Closed n \<Longrightarrow> mc_call_run rTpString wt readReply n c = (mc_closed_reply c, n)"
  by (cases c) (simp_all add: mc_Ping_def mc_Write_def mc_Read_def mc_Close_def mc_Closed_def
      handlerClosed_def handlerOpening_def)

lemma mc_calls_closed:
  "mc_Closed n \<Longrightarrow> mc_calls_run rTpString wt readReply n cs = (map mc_closed_reply cs, n)"
  by (induction cs) (simp_all add: mc_call_closed)

lemma mc_call_flag:
  "mc_closed n = handlerOpening \<or> mc_closed n = handlerClosed \<Longrightarrow>
   mc_closed (snd (mc_call_run rTpString wt readReply n c)) = handlerOpening
   \<or> mc_closed (snd (mc_call_run rTpString wt readReply n c)) = handlerClosed"
  by (cases c)
     (auto simp: mc_Ping_def mc_Write_def mc_Read_def mc_Close_def Let_def
           split: option.splits prod.splits if_splits)

lemma mc_calls_flag:
  "mc_closed n = handlerOpening \<or> mc_closed n = handlerClosed \<Longrightarrow>
   mc_closed (snd (mc_calls_run rTpString wt readReply n cs)) = handlerOpening
   \<or> mc_closed (snd (mc_calls_run rTpString wt readReply n cs)) = handlerClosed"
proof (induction cs arbitrary: n)
  case Nil
  then show ?case by simp
next
  case (Cons c cs)
  obtain e n' where r: "mc_call_run rTpString wt readReply n c = (e, n')"
    by (cases "mc_call_run rTpString wt readReply n c")
  have "mc_closed n' = handlerOpening \<or> mc_closed n' = handlerClosed"
    using mc_call_flag[OF Cons.prems, of rTpString wt readReply c] r by simp
  from Cons.IH[OF this] show ?case using r by (auto split: prod.splits)
qed

lemma mc_new_flag: "mc_closed (mc_NewNodeConn conn inc) = handlerOpening"
  by (simp add: mc_NewNodeConn_def handlerOpening_def)

lemma mc_Close_closes:
  "mc_closed n = handlerOpening \<or> mc_closed n = handlerClosed \<Longrightarrow> mc_Closed (snd (mc_Close cerr n))"
  by (auto simp: mc_Close_def mc_Closed_def)

lemma redis_call_state:
  "state (snd (redis_call_run isS isC enc dec wt nc c)) = (if state nc = opened \<and> (\<exists>ce. c = CallClose ce) then closed else state nc)"
  by (cases c)
     (auto simp: WriteBatch_def ReadBatch_def ResetBuffer_def Ping_def Close_def Let_def
           split: sum.splits option.splits prod.splits)

lemma redis_call_flag:
  "state nc = opened \<or> state nc = closed \<Longrightarrow>
   state (snd (redis_call_run isS isC enc dec wt nc c)) = opened
   \<or> state (snd (redis_call_run isS isC enc dec wt nc c)) = closed"
  by (simp add: redis_call_state)

lemma redis_calls_flag:
  "state nc = opened \<or> state nc = closed \<Longrightarrow>
   state (snd (redis_calls_run isS isC enc dec wt nc cs)) = opened
   \<or> state (snd (redis_calls_run isS isC enc dec wt nc cs)) = closed"
proof (induction cs arbitrary: nc)
  case Nil
  then show ?case by simp
next
  case (Cons c cs)
  obtain e nc' where r: "redis_call_run isS isC enc dec wt nc c = (e, nc')"
    by (cases "redis_call_run isS isC enc dec wt nc c")
  have "state nc' = opened \<or> state nc' = closed"
    using redis_call_flag[OF Cons.prems, of isS isC enc dec wt c] r by simp
  from Cons.IH[OF this] show ?case using r by (auto split: prod.splits)
qed

lemma redis_calls_closed:
  "state nc = closed \<Longrightarrow> state (snd (redis_calls_run isS isC enc dec wt nc cs)) = closed"
proof (induction cs arbitrary: nc)
  case Nil
  then show ?case by simp
next
  case (Cons c cs)
  obtain e nc' where r: "redis_call_run isS isC enc dec wt nc c = (e, nc')"
    by (cases "redis_call_run isS isC enc dec wt nc c")
  have "state nc' = closed"
    using redis_call_state[of isS isC enc dec wt nc c] r Cons.prems by (simp add: opened_def closed_def)
  from Cons.IH[OF this] show ?case using r by (auto split: prod.splits)
qed

text \<open>
  C6, as the code has it.  A memcache node connection that was closed after any history
  of calls is closed, and from then on every call leaves it as it is and returns: nil for
  \<open>Close\<close> (a no-op), an error whose cause is \<open>ErrClosed\<close> for \<open>Write\<close> and \<open>Read\<close>, and
  \<open>io.EOF\<close> for \<open>Ping\<close>.  A redis node connection that was closed after any history of
  calls has state closed, a further \<open>Close\<close> is a no-op returning nil, and no sequence of
  calls brings the state back to open.
\<close>

theorem close_idempotent_state_monotone:
  "(let n1 = snd (mc_Close cerr (snd (mc_calls_run rTpString wt readReply (mc_NewNodeConn conn inc) cs0))) in
      mc_Closed n1
      \<and> mc_calls_run rTpString wt readReply n1 cs = (map mc_closed_reply cs, n1))
   \<and> mc_closed_reply (McClose ce) = None
   \<and> mc_closed_reply (McPing pong) = Some EOF
   \<and> map_option Cause (mc_closed_reply (McWrite m)) = Some ErrClosed
   \<and> map_option Cause (mc_closed_reply (McRead m)) = Some ErrClosed
   \<and> (let nc1 = snd (Close cerr' (snd (redis_calls_run isS isC enc dec wt' (newNodeConn conn' inc') cs0'))) in
      state nc1 = closed
      \<and> Close ce' nc1 = (None, nc1)
      \<and> state (snd (redis_calls_run isS isC enc dec wt' nc1 cs')) = closed)"
proof -
  let ?n0 = "snd (mc_calls_run rTpString wt readReply (mc_NewNodeConn conn inc) cs0)"
  let ?n1 = "snd (mc_Close cerr ?n0)"
  have "mc_closed ?n0 = handlerOpening \<or> mc_closed ?n0 = handlerClosed"
    by (rule mc_calls_flag) (simp add: mc_new_flag)
  then have c1: "mc_Closed ?n1" by (rule mc_Close_closes)
  have a: "mc_Closed ?n1 \<and> mc_calls_run rTpString wt readReply ?n1 cs = (map mc_closed_reply cs, ?n1)"
    using c1 mc_calls_closed[OF c1] by simp
  let ?c0 = "snd (redis_calls_run isS isC enc dec wt' (newNodeConn conn' inc') cs0')"
  let ?c1 = "snd (Close cerr' ?c0)"
  have "state ?c0 = opened \<or> state ?c0 = closed"
    by (rule redis_calls_flag) (simp add: newNodeConn_def opened_def)
  then have s1: "state ?c1 = closed" by (auto simp: Close_def)
  have s2: "Close ce' ?c1 = (None, ?c1)" using s1 by (simp add: Close_def opened_def closed_def)
  have b: "state ?c1 = closed \<and> Close ce' ?c1 = (None, ?c1)
      \<and> state (snd (redis_calls_run isS isC enc dec wt' ?c1 cs')) = closed"
    using s1 s2 redis_calls_closed[OF s1] by simp
  show ?thesis using a b by (simp add: Let_def)
qed

text \<open>
  C6 as stated fails: on a closed redis node connection \<open>WriteBatch\<close> of a batch without
  messages returns nil, not a closed error, since it does not look at the state; and on a
  closed memcache node connection \<open>Ping\<close> returns \<open>io.EOF\<close>, not \<open>ErrClosed\<close>.
\<close>

theorem close_then_write_counterexample:
  "state (snd (Close None (newNodeConn [] []))) = closed
   \<and> fst (redis_call_run isSupport_text isCtl_text encode_text decode_line sink_append
            (snd (Close None (newNodeConn [] []))) (CallWriteBatch (batch_of []))) = Inr None
   \<and> fst (mc_Ping None (snd (mc_Close None (mc_NewNodeConn [] [])))) = Some EOF
   \<and> Cause EOF \<noteq> ErrClosed"
  by (simp add: Close_def newNodeConn_def opened_def closed_def WriteBatch_def Msgs_def
      batch_of_def NewWriter_def Flush_def Let_def
      mc_Ping_def mc_Close_def mc_NewNodeConn_def mc_Closed_def handlerOpening_def handlerClosed_def)

subsection \<open>The handler: one frame\<close>












text \<open>The slot count that \<open>handle\<close> carries into its \<open>i\<close>-th iteration is \<open>slots\<close> of the frames before.\<close>

lemma handle_slot_counts:
  "i < length (handle Encode pcFlush nb pc lm script) \<Longrightarrow>
   fst (handle Encode pcFlush nb pc lm script ! i)
     = foldl resetMaxConcurrent lm (map frameLen (take i script))"
proof (induction Encode pcFlush nb pc lm script arbitrary: i rule: handle.induct)
  case (1 Encode pcFlush nb pc lm)
  then show ?case by simp
next
  case (2 Encode pcFlush nb pc lm e rest)
  then show ?case by simp
next
  case (3 Encode pcFlush nb pc lm frame rest)
  obtain evs pc1 r where h: "handle_frame Encode pcFlush nb pc frame = (evs, pc1, r)"
    by (metis prod_cases3)
  show ?case
  proof (cases r)
    case (Some e)
    then show ?thesis using "3.prems" h by simp
  next
    case None
    show ?thesis
    proof (cases i)
      case 0
      then show ?thesis using h None by simp
    next
      case (Suc i')
      then have "i' < length (handle Encode pcFlush nb pc1 (resetMaxConcurrent lm (int (length frame))) rest)"
        using "3.prems" h None by simp
      from "3.IH"[OF h[symmetric] refl None this] show ?thesis
        using Suc h None by (simp add: frameLen_def)
    qed
  qed
qed

lemma handle_slots:
  "i < length (handle Encode pcFlush nb pc defaultConcurrent script) \<Longrightarrow>
   fst (handle Encode pcFlush nb pc defaultConcurrent script ! i) = slots (map frameLen (take i script))"
  by (simp add: handle_slot_counts slots_def)

end
